theory Spec2Isabelle
  imports Complex_Main
begin

section \<open>The production-line simulation of main.py\<close>

text \<open>
  main.py drives a SimPy discrete-event simulation. The generators of main.py
  (\<open>generate_breakdown\<close>, \<open>process_product\<close>, \<open>produce_product\<close>, \<open>send_raw_material\<close>,
  \<open>change_shift\<close>) are embedded as state machines with one state per \<open>yield\<close>; the
  SimPy objects they use (Environment, Timeout, Process, Resource) are embedded with the
  behaviour the library has: a heap of events keyed by (time, priority, event id), and a
  resource with a list of users and a FIFO queue of pending requests. Virtual time is a
  rational number (Python floats are idealised).
\<close>

subsection \<open>Module constants and configuration\<close>

datatype machine_type = Machining | Assembly | QualityControl | Packaging

datatype product_type = ProductA | ProductB

datatype shift = Day | Evening | Night

text \<open>The exceptions that can leave the code: raised by \<open>random.randint\<close>,
  \<open>simpy.Resource\<close>, \<open>env.timeout\<close> and \<open>env.run\<close> (ValueError), by \<open>1.0 / 0\<close>
  (ZeroDivisionError), by a dictionary lookup (KeyError) and by \<open>env.run\<close> on an empty
  schedule (AssertionError).\<close>

datatype exn = ValueError | ZeroDivisionError | KeyError | AssertionError

fun exn_name :: "exn \<Rightarrow> string" where
  "exn_name ValueError = ''ValueError''"
| "exn_name ZeroDivisionError = ''ZeroDivisionError''"
| "exn_name KeyError = ''KeyError''"
| "exn_name AssertionError = ''AssertionError''"

text \<open>A dictionary \<open>{"min": a, "max": b}\<close>.\<close>

record range =
  rmin :: int
  rmax :: int

text \<open>The module-level tables read by the generators. They are globals of main.py;
  the model takes them as one record so that a scenario can set them.\<close>

record config =
  PRODUCT_TYPES :: "product_type list"
  RAW_MATERIAL_ARRIVAL_TIME :: "product_type \<Rightarrow> rat"
  PROCESSING_TIMES :: "product_type \<Rightarrow> machine_type \<Rightarrow> range"
  MACHINE_BREAKDOWN_TIME :: "machine_type \<Rightarrow> range"
  MACHINE_REPAIR_TIME :: "machine_type \<Rightarrow> range"

definition RANDOM_SEED :: nat where
  "RANDOM_SEED = 42"

definition SIM_TIME :: rat where
  "SIM_TIME = 40 * 8 * 60"

fun default_arrival :: "product_type \<Rightarrow> rat" where
  "default_arrival ProductA = 15"
| "default_arrival ProductB = 20"

fun default_processing :: "product_type \<Rightarrow> machine_type \<Rightarrow> range" where
  "default_processing ProductA Machining = \<lparr>rmin = 10, rmax = 20\<rparr>"
| "default_processing ProductA Assembly = \<lparr>rmin = 20, rmax = 30\<rparr>"
| "default_processing ProductA QualityControl = \<lparr>rmin = 3, rmax = 7\<rparr>"
| "default_processing ProductA Packaging = \<lparr>rmin = 1, rmax = 3\<rparr>"
| "default_processing ProductB Machining = \<lparr>rmin = 15, rmax = 25\<rparr>"
| "default_processing ProductB Assembly = \<lparr>rmin = 25, rmax = 35\<rparr>"
| "default_processing ProductB QualityControl = \<lparr>rmin = 5, rmax = 9\<rparr>"
| "default_processing ProductB Packaging = \<lparr>rmin = 2, rmax = 4\<rparr>"

fun default_breakdown :: "machine_type \<Rightarrow> range" where
  "default_breakdown Machining = \<lparr>rmin = 4 * 60, rmax = 8 * 60\<rparr>"
| "default_breakdown Assembly = \<lparr>rmin = 6 * 60, rmax = 10 * 60\<rparr>"
| "default_breakdown QualityControl = \<lparr>rmin = 2 * 60, rmax = 4 * 60\<rparr>"
| "default_breakdown Packaging = \<lparr>rmin = 1 * 60, rmax = 2 * 60\<rparr>"

fun default_repair :: "machine_type \<Rightarrow> range" where
  "default_repair Machining = \<lparr>rmin = 1 * 60, rmax = 3 * 60\<rparr>"
| "default_repair Assembly = \<lparr>rmin = 2 * 60, rmax = 4 * 60\<rparr>"
| "default_repair QualityControl = \<lparr>rmin = 30, rmax = 60\<rparr>"
| "default_repair Packaging = \<lparr>rmin = 15, rmax = 30\<rparr>"

definition module_config :: config where
  "module_config =
     \<lparr>PRODUCT_TYPES = [ProductA, ProductB],
      RAW_MATERIAL_ARRIVAL_TIME = default_arrival,
      PROCESSING_TIMES = default_processing,
      MACHINE_BREAKDOWN_TIME = default_breakdown,
      MACHINE_REPAIR_TIME = default_repair\<rparr>"

definition NUM_MACHINES :: "(machine_type \<times> int) list" where
  "NUM_MACHINES = [(Machining, 5), (Assembly, 8), (QualityControl, 3), (Packaging, 2)]"

definition NUM_OPERATORS :: "(shift \<times> int) list" where
  "NUM_OPERATORS = [(Day, 20), (Evening, 15), (Night, 10)]"

subsection \<open>The pseudo-random stream\<close>

text \<open>
  All draws come from the module-level generator of Python's \<open>random\<close>. Its algorithm is
  outside the repository; the model takes the sequence of raw values the generator is going
  to deliver as an input (\<open>g 0\<close> is the next one) and lets every draw consume one value.
  \<open>randint a b\<close> maps the raw value into \<open>[a, b]\<close> and raises ValueError on an empty range,
  as \<open>random.randrange\<close> does; \<open>expovariate lambd\<close> maps it to a non-negative value
  divided by \<open>lambd\<close>.
\<close>

type_synonym rng = "nat \<Rightarrow> rat"

definition advance :: "rng \<Rightarrow> rng" where
  "advance g = (\<lambda>n. g (Suc n))"

definition randint :: "int \<Rightarrow> int \<Rightarrow> rng \<Rightarrow> exn + int \<times> rng" where
  "randint a b g =
     (if b < a then Inl ValueError
      else Inr (a + \<lfloor>g 0\<rfloor> mod (b - a + 1), advance g))"

definition expovariate :: "rat \<Rightarrow> rng \<Rightarrow> rat \<times> rng" where
  "expovariate lambd g = (\<bar>g 0\<bar> / lambd, advance g)"

subsection \<open>Generators, events and the simulation state\<close>

text \<open>The state of a suspended generator: its local variables and the \<open>yield\<close> it is
  suspended at. A request is identified by a serial number (the identity of the Request
  object) and the process that made it.\<close>

datatype bpc =
    BStart
  | BBreakdown
  | BRequest nat
  | BRepair nat
  | BFailed

datatype apc = AStart | AWait | AFailed

datatype ppc =
    PStart
  | PRequest machine_type "machine_type list" nat
  | PProcess machine_type "machine_type list" nat nat
  | PFinished
  | PFailed

datatype cpc = CStart | CWait | CFinished | CFailed

datatype spc = SStart | SWait

datatype gen =
    Breakdown machine_type bpc
  | Arrival product_type nat apc
  | Product product_type nat rat ppc
  | Processing product_type machine_type nat cpc
  | ShiftCycle shift spc

datatype event =
    Initialize nat
  | Timeout nat
  | Request machine_type nat nat
  | Release machine_type
  | ProcessEnd nat "exn option"
  | Until

text \<open>What the \<open>print\<close> calls write, each line with the process that printed it.\<close>

datatype obs =
    Entered product_type nat rat
  | AtStage product_type nat machine_type rat rat
  | FinishedProduction product_type nat rat
  | BreakdownIn machine_type rat
  | Repaired machine_type rat
  | ShiftChanged shift rat

record pool =
  capacity :: int
  users :: "(nat \<times> nat) list"
  put_queue :: "(nat \<times> nat) list"

type_synonym entry = "rat \<times> nat \<times> nat \<times> event"

record sim =
  now :: rat
  eid :: nat
  queue :: "entry list"
  procs :: "gen list"
  machines :: "machine_type \<Rightarrow> pool option"
  next_request :: nat
  rng :: rng
  PRODUCTS_PRODUCED :: nat
  RAW_MATERIALS_USED :: nat
  trace :: "(nat \<times> obs) list"

definition URGENT :: nat where "URGENT = 0"
definition NORMAL :: nat where "NORMAL = 1"

subsection \<open>The event heap\<close>

fun key_less :: "entry \<Rightarrow> entry \<Rightarrow> bool" where
  "key_less (t1, p1, e1, _) (t2, p2, e2, _) =
     (t1 < t2 \<or> (t1 = t2 \<and> (p1 < p2 \<or> (p1 = p2 \<and> e1 < e2))))"

fun heap_min :: "entry \<Rightarrow> entry list \<Rightarrow> entry" where
  "heap_min x [] = x"
| "heap_min x (y # ys) = heap_min (if key_less y x then y else x) ys"

definition heappop :: "entry list \<Rightarrow> (entry \<times> entry list) option" where
  "heappop q = (case q of [] \<Rightarrow> None
                | x # xs \<Rightarrow> (let m = heap_min x xs in Some (m, remove1 m q)))"

text \<open>\<open>Environment.schedule\<close>: push (now + delay, priority, next event id, event).\<close>

definition schedule :: "event \<Rightarrow> nat \<Rightarrow> rat \<Rightarrow> sim \<Rightarrow> sim" where
  "schedule ev priority delay s =
     s\<lparr>queue := queue s @ [(now s + delay, priority, eid s, ev)], eid := eid s + 1\<rparr>"

text \<open>\<open>env.timeout(delay)\<close>, yielded by process \<open>p\<close>.\<close>

definition timeout :: "nat \<Rightarrow> rat \<Rightarrow> sim \<Rightarrow> exn + sim" where
  "timeout p delay s =
     (if delay < 0 then Inl ValueError else Inr (schedule (Timeout p) NORMAL delay s))"

text \<open>\<open>env.process(generator)\<close>: a new Process whose Initialize event is scheduled
  URGENT at the current time.\<close>

definition process :: "gen \<Rightarrow> sim \<Rightarrow> nat \<times> sim" where
  "process g s =
     (let p = length (procs s)
      in (p, schedule (Initialize p) URGENT 0 (s\<lparr>procs := procs s @ [g]\<rparr>)))"

text \<open>A generator that raises: its Process event fails and is scheduled.\<close>

definition fail :: "nat \<Rightarrow> gen \<Rightarrow> exn \<Rightarrow> sim \<Rightarrow> sim" where
  "fail p g e s = schedule (ProcessEnd p (Some e)) NORMAL 0 (s\<lparr>procs := (procs s)[p := g]\<rparr>)"

definition say :: "nat \<Rightarrow> obs \<Rightarrow> sim \<Rightarrow> sim" where
  "say p ob s = s\<lparr>trace := trace s @ [(p, ob)]\<rparr>"

subsection \<open>simpy.Resource\<close>

text \<open>\<open>_trigger_put\<close>: only the head of the queue is looked at (\<open>_do_put\<close> returns None,
  so the loop breaks after one request); it is granted when a unit is free.\<close>

definition trigger_put :: "machine_type \<Rightarrow> sim \<Rightarrow> sim" where
  "trigger_put m s =
     (case machines s m of
        None \<Rightarrow> s
      | Some pl \<Rightarrow>
          (case put_queue pl of
             [] \<Rightarrow> s
           | (r, p) # rest \<Rightarrow>
               if int (length (users pl)) < capacity pl
               then schedule (Request m r p) NORMAL 0
                      (s\<lparr>machines := (machines s)(m \<mapsto>
                            pl\<lparr>users := users pl @ [(r, p)], put_queue := rest\<rparr>)\<rparr>)
               else s))"

text \<open>\<open>machines[m].machines.request()\<close> by process \<open>p\<close>: the new request joins the tail
  of the queue, then \<open>_trigger_put\<close> runs.\<close>

definition request :: "machine_type \<Rightarrow> nat \<Rightarrow> sim \<Rightarrow> exn + nat \<times> sim" where
  "request m p s =
     (case machines s m of
        None \<Rightarrow> Inl KeyError
      | Some pl \<Rightarrow>
          (let r = next_request s
           in Inr (r, trigger_put m
                        (s\<lparr>machines := (machines s)(m \<mapsto>
                              pl\<lparr>put_queue := put_queue pl @ [(r, p)]\<rparr>),
                           next_request := r + 1\<rparr>))))"

text \<open>Leaving the \<open>with\<close> block is \<open>Request.__exit__\<close>: first \<open>cancel\<close>, which takes a
  request that has not been granted out of the queue, then \<open>resource.release(request)\<close>,
  which removes the request from the users at once and schedules the Release event, whose
  callback is \<open>_trigger_put\<close>.\<close>

definition cancel :: "machine_type \<Rightarrow> nat \<Rightarrow> nat \<Rightarrow> sim \<Rightarrow> sim" where
  "cancel m r p s =
     (case machines s m of
        None \<Rightarrow> s
      | Some pl \<Rightarrow>
          s\<lparr>machines := (machines s)(m \<mapsto> pl\<lparr>put_queue := remove1 (r, p) (put_queue pl)\<rparr>)\<rparr>)"

definition release :: "machine_type \<Rightarrow> nat \<Rightarrow> nat \<Rightarrow> sim \<Rightarrow> sim" where
  "release m r p s =
     (case machines s m of
        None \<Rightarrow> s
      | Some pl \<Rightarrow>
          schedule (Release m) NORMAL 0
            (s\<lparr>machines := (machines s)(m \<mapsto> pl\<lparr>users := remove1 (r, p) (users pl)\<rparr>)\<rparr>))"

definition exit_with :: "machine_type \<Rightarrow> nat \<Rightarrow> nat \<Rightarrow> sim \<Rightarrow> sim" where
  "exit_with m r p s = release m r p (cancel m r p s)"

subsection \<open>The generators of main.py\<close>

text \<open>Each function below is one generator: given the \<open>yield\<close> the process \<open>p\<close> is suspended
  at and the event that is being processed, it runs the generator to its next \<open>yield\<close>.
  SimPy registers the process as a callback of the event it yielded (its target), so an
  event resumes exactly the process that waits for it; for any other event the state is
  left as it is.\<close>

text \<open>\<open>Machine.generate_breakdown\<close>: the head of the \<open>while True\<close> loop.\<close>

definition breakdown_loop :: "config \<Rightarrow> nat \<Rightarrow> machine_type \<Rightarrow> sim \<Rightarrow> sim" where
  "breakdown_loop cfg p m s =
     (case randint (rmin (MACHINE_BREAKDOWN_TIME cfg m)) (rmax (MACHINE_BREAKDOWN_TIME cfg m))
             (rng s) of
        Inl e \<Rightarrow> fail p (Breakdown m BFailed) e s
      | Inr (breakdown_duration, g) \<Rightarrow>
          (case timeout p (of_int breakdown_duration) (s\<lparr>rng := g\<rparr>) of
             Inl e \<Rightarrow> fail p (Breakdown m BFailed) e (s\<lparr>rng := g\<rparr>)
           | Inr s' \<Rightarrow> s'\<lparr>procs := (procs s')[p := Breakdown m BBreakdown]\<rparr>))"

definition breakdown_repair :: "config \<Rightarrow> nat \<Rightarrow> machine_type \<Rightarrow> nat \<Rightarrow> sim \<Rightarrow> sim" where
  "breakdown_repair cfg p m r s =
     (case randint (rmin (MACHINE_REPAIR_TIME cfg m)) (rmax (MACHINE_REPAIR_TIME cfg m))
             (rng s) of
        Inl e \<Rightarrow> fail p (Breakdown m BFailed) e (exit_with m r p s)
      | Inr (repair_duration, g) \<Rightarrow>
          (case timeout p (of_int repair_duration) (s\<lparr>rng := g\<rparr>) of
             Inl e \<Rightarrow> fail p (Breakdown m BFailed) e (exit_with m r p (s\<lparr>rng := g\<rparr>))
           | Inr s' \<Rightarrow> s'\<lparr>procs := (procs s')[p := Breakdown m (BRepair r)]\<rparr>))"

definition generate_breakdown ::
  "config \<Rightarrow> nat \<Rightarrow> machine_type \<Rightarrow> bpc \<Rightarrow> event \<Rightarrow> sim \<Rightarrow> sim" where
  "generate_breakdown cfg p m pc ev s =
     (case pc of
        BStart \<Rightarrow> if ev = Initialize p then breakdown_loop cfg p m s else s
      | BBreakdown \<Rightarrow>
          if ev = Timeout p
          then (case request m p s of
                  Inl e \<Rightarrow> fail p (Breakdown m BFailed) e s
                | Inr (r, s') \<Rightarrow> s'\<lparr>procs := (procs s')[p := Breakdown m (BRequest r)]\<rparr>)
          else s
      | BRequest r \<Rightarrow>
          if ev = Request m r p
          then breakdown_repair cfg p m r (say p (BreakdownIn m (now s)) s)
          else s
      | BRepair r \<Rightarrow>
          if ev = Timeout p
          then breakdown_loop cfg p m (exit_with m r p (say p (Repaired m (now s)) s))
          else s
      | BFailed \<Rightarrow> s)"

text \<open>\<open>Machine.process_product\<close>, started by \<open>produce_product\<close> (process \<open>parent\<close>).\<close>

definition process_product ::
  "config \<Rightarrow> nat \<Rightarrow> product_type \<Rightarrow> machine_type \<Rightarrow> nat \<Rightarrow> cpc \<Rightarrow> event \<Rightarrow> sim \<Rightarrow> sim" where
  "process_product cfg p pt m parent pc ev s =
     (case pc of
        CStart \<Rightarrow>
          if ev = Initialize p
          then (case randint (rmin (PROCESSING_TIMES cfg pt m)) (rmax (PROCESSING_TIMES cfg pt m))
                       (rng s) of
                  Inl e \<Rightarrow> fail p (Processing pt m parent CFailed) e s
                | Inr (processing_time, g) \<Rightarrow>
                    (case timeout p (of_int processing_time) (s\<lparr>rng := g\<rparr>) of
                       Inl e \<Rightarrow> fail p (Processing pt m parent CFailed) e (s\<lparr>rng := g\<rparr>)
                     | Inr s' \<Rightarrow> s'\<lparr>procs := (procs s')[p := Processing pt m parent CWait]\<rparr>))
          else s
      | CWait \<Rightarrow>
          if ev = Timeout p
          then schedule (ProcessEnd p None) NORMAL 0
                 (s\<lparr>procs := (procs s)[p := Processing pt m parent CFinished]\<rparr>)
          else s
      | CFinished \<Rightarrow> s
      | CFailed \<Rightarrow> s)"

definition stages :: "machine_type list" where
  "stages = [Machining, Assembly, QualityControl, Packaging]"

text \<open>\<open>produce_product\<close>: the head of the \<open>for machine_type in [...]\<close> loop, with the
  stages still to visit; after the last stage the counter is incremented and the generator
  ends.\<close>

definition product_loop ::
  "nat \<Rightarrow> product_type \<Rightarrow> nat \<Rightarrow> rat \<Rightarrow> machine_type list \<Rightarrow> sim \<Rightarrow> sim" where
  "product_loop p pt i start_time ms s =
     (case ms of
        [] \<Rightarrow>
          (let s1 = s\<lparr>PRODUCTS_PRODUCED := PRODUCTS_PRODUCED s + 1\<rparr>;
               s2 = say p (FinishedProduction pt i (now s1)) s1
           in schedule (ProcessEnd p None) NORMAL 0
                (s2\<lparr>procs := (procs s2)[p := Product pt i start_time PFinished]\<rparr>))
      | m # rest \<Rightarrow>
          (case request m p s of
             Inl e \<Rightarrow> fail p (Product pt i start_time PFailed) e s
           | Inr (r, s') \<Rightarrow>
               s'\<lparr>procs := (procs s')[p := Product pt i start_time (PRequest m rest r)]\<rparr>))"

definition produce_product ::
  "config \<Rightarrow> nat \<Rightarrow> product_type \<Rightarrow> nat \<Rightarrow> rat \<Rightarrow> ppc \<Rightarrow> event \<Rightarrow> sim \<Rightarrow> sim" where
  "produce_product cfg p pt i start_time pc ev s =
     (case pc of
        PStart \<Rightarrow>
          if ev = Initialize p
          then product_loop p pt i (now s) stages (say p (Entered pt i (now s)) s)
          else s
      | PRequest m rest r \<Rightarrow>
          if ev = Request m r p
          then (let waiting_time = now s - start_time;
                    s1 = say p (AtStage pt i m (now s) waiting_time) s;
                    (c, s2) = process (Processing pt m p CStart) s1
                in s2\<lparr>procs := (procs s2)[p := Product pt i start_time (PProcess m rest r c)]\<rparr>)
          else s
      | PProcess m rest r c \<Rightarrow>
          if ev = ProcessEnd c None
          then product_loop p pt i (now s) rest (exit_with m r p s)
          else (case ev of
                  ProcessEnd c' (Some e) \<Rightarrow>
                    if c' = c then fail p (Product pt i start_time PFailed) e (exit_with m r p s)
                    else s
                | _ \<Rightarrow> s)
      | PFinished \<Rightarrow> s
      | PFailed \<Rightarrow> s)"

text \<open>\<open>send_raw_material\<close>: the head of the \<open>while True\<close> loop.\<close>

definition arrival_loop :: "config \<Rightarrow> nat \<Rightarrow> product_type \<Rightarrow> nat \<Rightarrow> sim \<Rightarrow> sim" where
  "arrival_loop cfg p pt i s =
     (if RAW_MATERIAL_ARRIVAL_TIME cfg pt = 0
      then fail p (Arrival pt i AFailed) ZeroDivisionError s
      else (let (d, g) = expovariate (1 / RAW_MATERIAL_ARRIVAL_TIME cfg pt) (rng s)
            in case timeout p d (s\<lparr>rng := g\<rparr>) of
                 Inl e \<Rightarrow> fail p (Arrival pt i AFailed) e (s\<lparr>rng := g\<rparr>)
               | Inr s' \<Rightarrow> s'\<lparr>procs := (procs s')[p := Arrival pt i AWait]\<rparr>))"

definition send_raw_material ::
  "config \<Rightarrow> nat \<Rightarrow> product_type \<Rightarrow> nat \<Rightarrow> apc \<Rightarrow> event \<Rightarrow> sim \<Rightarrow> sim" where
  "send_raw_material cfg p pt i pc ev s =
     (case pc of
        AStart \<Rightarrow> if ev = Initialize p then arrival_loop cfg p pt i s else s
      | AWait \<Rightarrow>
          if ev = Timeout p
          then (let s1 = s\<lparr>RAW_MATERIALS_USED := RAW_MATERIALS_USED s + 1\<rparr>;
                    (q, s2) = process (Product pt i 0 PStart) s1
                in arrival_loop cfg p pt (i + 1) s2)
          else s
      | AFailed \<Rightarrow> s)"

text \<open>\<open>change_shift\<close>.\<close>

fun next_shift :: "shift \<Rightarrow> shift" where
  "next_shift Day = Evening"
| "next_shift Evening = Night"
| "next_shift Night = Day"

definition change_shift :: "nat \<Rightarrow> shift \<Rightarrow> spc \<Rightarrow> event \<Rightarrow> sim \<Rightarrow> sim" where
  "change_shift p current_shift pc ev s =
     (case pc of
        SStart \<Rightarrow>
          if ev = Initialize p
          then (let s1 = schedule (Timeout p) NORMAL (8 * 60) s
                in s1\<lparr>procs := (procs s1)[p := ShiftCycle Day SWait]\<rparr>)
          else s
      | SWait \<Rightarrow>
          if ev = Timeout p
          then (let s1 = say p (ShiftChanged (next_shift current_shift) (now s)) s;
                    s2 = schedule (Timeout p) NORMAL (8 * 60) s1
                in s2\<lparr>procs := (procs s2)[p := ShiftCycle (next_shift current_shift) SWait]\<rparr>)
          else s)"

subsection \<open>The scheduler\<close>

text \<open>\<open>Process._resume\<close> of process \<open>p\<close> with the event being processed.\<close>

definition resume :: "config \<Rightarrow> nat \<Rightarrow> event \<Rightarrow> sim \<Rightarrow> sim" where
  "resume cfg p ev s =
     (if p < length (procs s)
      then (case procs s ! p of
              Breakdown m pc \<Rightarrow> generate_breakdown cfg p m pc ev s
            | Arrival pt i pc \<Rightarrow> send_raw_material cfg p pt i pc ev s
            | Product pt i start_time pc \<Rightarrow> produce_product cfg p pt i start_time pc ev s
            | Processing pt m parent pc \<Rightarrow> process_product cfg p pt m parent pc ev s
            | ShiftCycle current_shift pc \<Rightarrow> change_shift p current_shift pc ev s)
      else s)"

text \<open>The process that yielded the Process event of \<open>c\<close>, when there is one: only a
  \<open>process_product\<close> generator is yielded by its creator.\<close>

definition waiter :: "gen list \<Rightarrow> nat \<Rightarrow> nat option" where
  "waiter ps c =
     (if c < length ps
      then (case ps ! c of Processing pt m parent pc \<Rightarrow> Some parent | _ \<Rightarrow> None)
      else None)"

text \<open>The callbacks of an event, run when \<open>Environment.step\<close> pops it. A failed Process
  event that no process waits for is raised by \<open>step\<close>.\<close>

definition callbacks :: "config \<Rightarrow> event \<Rightarrow> sim \<Rightarrow> exn + sim" where
  "callbacks cfg ev s =
     (case ev of
        Initialize p \<Rightarrow> Inr (resume cfg p ev s)
      | Timeout p \<Rightarrow> Inr (resume cfg p ev s)
      | Request m r p \<Rightarrow> Inr (resume cfg p ev s)
      | Release m \<Rightarrow> Inr (trigger_put m s)
      | ProcessEnd c outcome \<Rightarrow>
          (case waiter (procs s) c of
             Some parent \<Rightarrow> Inr (resume cfg parent ev s)
           | None \<Rightarrow> (case outcome of None \<Rightarrow> Inr s | Some e \<Rightarrow> Inl e))
      | Until \<Rightarrow> Inr s)"

datatype step_result = Continue sim | Stop sim | Raise exn sim

text \<open>\<open>Environment.step\<close>, with the \<open>StopSimulation\<close> callback of the until-event.\<close>

definition env_step :: "config \<Rightarrow> sim \<Rightarrow> step_result" where
  "env_step cfg s =
     (case heappop (queue s) of
        None \<Rightarrow> Raise AssertionError s
      | Some ((t, pr, e, ev), q) \<Rightarrow>
          (let s1 = s\<lparr>now := t, queue := q\<rparr>
           in if ev = Until then Stop s1
              else (case callbacks cfg ev s1 of
                      Inl x \<Rightarrow> Raise x s1
                    | Inr s2 \<Rightarrow> Continue s2)))"

text \<open>The loop of \<open>Environment.run\<close>. It need not end (events can follow each other at
  one instant for ever), so it takes fuel: \<open>None\<close> is a loop still running after that many
  steps.\<close>

fun env_run :: "config \<Rightarrow> nat \<Rightarrow> sim \<Rightarrow> (exn \<times> sim + sim) option" where
  "env_run cfg 0 s = None"
| "env_run cfg (Suc n) s =
     (case env_step cfg s of
        Continue s' \<Rightarrow> env_run cfg n s'
      | Stop s' \<Rightarrow> Some (Inr s')
      | Raise x s' \<Rightarrow> Some (Inl (x, s')))"

subsection \<open>Running a scenario\<close>

text \<open>\<open>simpy.Environment()\<close>: a new environment; the generator, the global counters and
  the output stay.\<close>

definition Environment :: "sim \<Rightarrow> sim" where
  "Environment w =
     w\<lparr>now := 0, eid := 0, queue := [], procs := [], machines := Map.empty,
       next_request := 0\<rparr>"

text \<open>The dictionary comprehension of \<open>run_scenario\<close>: \<open>Machine.__init__\<close> builds a
  \<open>simpy.Resource\<close>, which raises ValueError unless the capacity is positive.\<close>

fun make_machines ::
  "(machine_type \<times> int) list \<Rightarrow> (machine_type \<Rightarrow> pool option) \<Rightarrow>
   exn + (machine_type \<Rightarrow> pool option)" where
  "make_machines [] acc = Inr acc"
| "make_machines ((m, quantity) # rest) acc =
     (if quantity \<le> 0 then Inl ValueError
      else make_machines rest (acc(m \<mapsto> \<lparr>capacity = quantity, users = [], put_queue = []\<rparr>)))"

definition start_processes :: "gen list \<Rightarrow> sim \<Rightarrow> sim" where
  "start_processes gs s = fold (\<lambda>g s. snd (process g s)) gs s"

text \<open>Everything \<open>run_scenario\<close> does before \<open>env.run\<close>.\<close>

definition prepare :: "config \<Rightarrow> (machine_type \<times> int) list \<Rightarrow> sim \<Rightarrow> exn \<times> sim + sim" where
  "prepare cfg num_machines s =
     (let s0 = s\<lparr>PRODUCTS_PRODUCED := 0, RAW_MATERIALS_USED := 0\<rparr>
      in case make_machines num_machines Map.empty of
           Inl e \<Rightarrow> Inl (e, s0)
         | Inr ms \<Rightarrow>
             Inr (start_processes
                    (map (\<lambda>m. Breakdown m BStart) (map fst num_machines)
                     @ map (\<lambda>pt. Arrival pt 1 AStart) (PRODUCT_TYPES cfg)
                     @ [ShiftCycle Day SStart])
                    (s0\<lparr>machines := ms\<rparr>)))"

text \<open>\<open>env.run(until=simulation_time)\<close>.\<close>

definition run_until :: "config \<Rightarrow> nat \<Rightarrow> rat \<Rightarrow> sim \<Rightarrow> (exn \<times> sim + sim) option" where
  "run_until cfg fuel until s =
     (if until \<le> now s then Some (Inl (ValueError, s))
      else env_run cfg fuel (schedule Until URGENT (until - now s) s))"

definition run_scenario ::
  "config \<Rightarrow> nat \<Rightarrow> sim \<Rightarrow> (machine_type \<times> int) list \<Rightarrow> (shift \<times> int) list \<Rightarrow> rat \<Rightarrow>
   (exn \<times> sim + (nat \<times> nat) \<times> sim) option" where
  "run_scenario cfg fuel env num_machines shift_schedules simulation_time =
     (case prepare cfg num_machines env of
        Inl x \<Rightarrow> Some (Inl x)
      | Inr s \<Rightarrow>
          (case run_until cfg fuel simulation_time s of
             None \<Rightarrow> None
           | Some (Inl x) \<Rightarrow> Some (Inl x)
           | Some (Inr s') \<Rightarrow>
               Some (Inr ((PRODUCTS_PRODUCED s', RAW_MATERIALS_USED s'), s'))))"

subsection \<open>The sweep\<close>

record row =
  Num_Machines :: "(machine_type \<times> int) list"
  Shift_Schedule :: "(shift \<times> int) list"
  Products_Produced :: nat
  Raw_Materials_Used :: nat

text \<open>The inner loop of \<open>perform_scenario_analysis\<close>, over the shift schedules.\<close>

fun shift_loop ::
  "config \<Rightarrow> nat \<Rightarrow> rat \<Rightarrow> (machine_type \<times> int) list \<Rightarrow> (shift \<times> int) list list \<Rightarrow>
   row list \<Rightarrow> sim \<Rightarrow> (exn \<times> sim + row list \<times> sim) option" where
  "shift_loop cfg fuel t num_machines [] results w = Some (Inr (results, w))"
| "shift_loop cfg fuel t num_machines (shift_schedule # rest) results w =
     (case run_scenario cfg fuel (Environment w) num_machines shift_schedule t of
        None \<Rightarrow> None
      | Some (Inl x) \<Rightarrow> Some (Inl x)
      | Some (Inr ((products_produced, raw_materials_used), w')) \<Rightarrow>
          shift_loop cfg fuel t num_machines rest
            (results @ [\<lparr>Num_Machines = num_machines, Shift_Schedule = shift_schedule,
                          Products_Produced = products_produced,
                          Raw_Materials_Used = raw_materials_used\<rparr>]) w')"

text \<open>The outer loop, over the capacity configurations.\<close>

fun machines_loop ::
  "config \<Rightarrow> nat \<Rightarrow> rat \<Rightarrow> (machine_type \<times> int) list list \<Rightarrow> (shift \<times> int) list list \<Rightarrow>
   row list \<Rightarrow> sim \<Rightarrow> (exn \<times> sim + row list \<times> sim) option" where
  "machines_loop cfg fuel t [] shift_schedules_list results w = Some (Inr (results, w))"
| "machines_loop cfg fuel t (num_machines # rest) shift_schedules_list results w =
     (case shift_loop cfg fuel t num_machines shift_schedules_list results w of
        None \<Rightarrow> None
      | Some (Inl x) \<Rightarrow> Some (Inl x)
      | Some (Inr (results', w')) \<Rightarrow>
          machines_loop cfg fuel t rest shift_schedules_list results' w')"

definition perform_scenario_analysis ::
  "config \<Rightarrow> nat \<Rightarrow> (machine_type \<times> int) list list \<Rightarrow> (shift \<times> int) list list \<Rightarrow> rat \<Rightarrow>
   sim \<Rightarrow> (exn \<times> sim + row list \<times> sim) option" where
  "perform_scenario_analysis cfg fuel num_machines_list shift_schedules_list simulation_time w =
     machines_loop cfg fuel simulation_time num_machines_list shift_schedules_list [] w"

definition num_machines_list :: "(machine_type \<times> int) list list" where
  "num_machines_list =
     [[(Machining, 4), (Assembly, 7), (QualityControl, 2), (Packaging, 1)],
      [(Machining, 5), (Assembly, 8), (QualityControl, 3), (Packaging, 2)],
      [(Machining, 6), (Assembly, 9), (QualityControl, 4), (Packaging, 3)]]"

definition shift_schedules_list :: "(shift \<times> int) list list" where
  "shift_schedules_list =
     [[(Day, 15), (Evening, 10), (Night, 5)],
      [(Day, 20), (Evening, 15), (Night, 10)]]"

text \<open>The state the interpreter is in when the module starts: nothing but the generator,
  which \<open>random\<close> has seeded by itself.\<close>

definition world :: "rng \<Rightarrow> sim" where
  "world g =
     \<lparr>now = 0, eid = 0, queue = [], procs = [], machines = Map.empty, next_request = 0,
      rng = g, PRODUCTS_PRODUCED = 0, RAW_MATERIALS_USED = 0, trace = []\<rparr>"

text \<open>Constant streams of raw draws, for running the model on concrete inputs.\<close>

definition zeros :: rng where
  "zeros = (\<lambda>n. 0)"

definition ones :: rng where
  "ones = (\<lambda>n. 1)"

subsection \<open>The sweep as one loop over the combinations\<close>

text \<open>The batch sweep as the specification words it: one scenario per combination of a
  capacity configuration and a shift schedule, in the order of the combinations, one record
  per combination.\<close>

fun run_combinations ::
  "config \<Rightarrow> nat \<Rightarrow> rat \<Rightarrow> ((machine_type \<times> int) list \<times> (shift \<times> int) list) list \<Rightarrow>
   row list \<Rightarrow> sim \<Rightarrow> (exn \<times> sim + row list \<times> sim) option" where
  "run_combinations cfg fuel t [] results w = Some (Inr (results, w))"
| "run_combinations cfg fuel t ((num_machines, shift_schedule) # rest) results w =
     (case run_scenario cfg fuel (Environment w) num_machines shift_schedule t of
        None \<Rightarrow> None
      | Some (Inl x) \<Rightarrow> Some (Inl x)
      | Some (Inr ((products_produced, raw_materials_used), w')) \<Rightarrow>
          run_combinations cfg fuel t rest
            (results @ [\<lparr>Num_Machines = num_machines, Shift_Schedule = shift_schedule,
                          Products_Produced = products_produced,
                          Raw_Materials_Used = raw_materials_used\<rparr>]) w')"

definition inputs :: "row \<Rightarrow> (machine_type \<times> int) list \<times> (shift \<times> int) list" where
  "inputs r = (Num_Machines r, Shift_Schedule r)"

subsection \<open>The instants of a run\<close>

text \<open>The state after \<open>n\<close> iterations of the loop of \<open>env.run\<close> (the last state, once the
  loop has stopped).\<close>

fun after :: "config \<Rightarrow> nat \<Rightarrow> sim \<Rightarrow> sim" where
  "after cfg 0 s = s"
| "after cfg (Suc n) s =
     (case env_step cfg s of
        Continue s' \<Rightarrow> after cfg n s'
      | Stop s' \<Rightarrow> s'
      | Raise x s' \<Rightarrow> s')"

text \<open>The state in which \<open>run_scenario\<close> enters the loop of \<open>env.run\<close>, when it gets
  there.\<close>

definition started ::
  "config \<Rightarrow> sim \<Rightarrow> (machine_type \<times> int) list \<Rightarrow> rat \<Rightarrow> sim option" where
  "started cfg env num_machines simulation_time =
     (case prepare cfg num_machines env of
        Inl x \<Rightarrow> None
      | Inr s \<Rightarrow>
          if simulation_time \<le> now s then None
          else Some (schedule Until URGENT (simulation_time - now s) s))"

text \<open>The state of a run of \<open>run_scenario\<close> after \<open>n\<close> iterations of that loop.\<close>

definition instant ::
  "config \<Rightarrow> sim \<Rightarrow> (machine_type \<times> int) list \<Rightarrow> rat \<Rightarrow> nat \<Rightarrow> sim option" where
  "instant cfg env num_machines simulation_time n =
     map_option (after cfg n) (started cfg env num_machines simulation_time)"

subsection \<open>Units in the process table\<close>

fun is_product :: "gen \<Rightarrow> bool" where
  "is_product (Product pt i st pc) = True"
| "is_product _ = False"

fun is_finished :: "gen \<Rightarrow> bool" where
  "is_finished (Product pt i st PFinished) = True"
| "is_finished _ = False"

text \<open>The counters count the units: every \<open>produce_product\<close> process started is one raw
  material used, every one that has run to its end is one product produced.\<close>

definition counted :: "sim \<Rightarrow> bool" where
  "counted s \<longleftrightarrow>
     PRODUCTS_PRODUCED s = length (filter is_finished (procs s)) \<and>
     RAW_MATERIALS_USED s = length (filter is_product (procs s))"

subsection \<open>Concrete scenarios\<close>

text \<open>What a run or a sweep returns or raises, without the final state.\<close>

definition result :: "(exn \<times> sim + 'a \<times> sim) option \<Rightarrow> (exn + 'a) option" where
  "result x = map_option (map_sum fst fst) x"

text \<open>A line with one machine of each type.\<close>

definition unit_capacities :: "(machine_type \<times> int) list" where
  "unit_capacities = [(Machining, 1), (Assembly, 1), (QualityControl, 1), (Packaging, 1)]"

text \<open>A quick line: one product type, every stage takes one minute, breakdowns far away.\<close>

definition quick_config :: config where
  "quick_config =
     \<lparr>PRODUCT_TYPES = [ProductA],
      RAW_MATERIAL_ARRIVAL_TIME = (\<lambda>pt. 1),
      PROCESSING_TIMES = (\<lambda>pt m. \<lparr>rmin = 1, rmax = 1\<rparr>),
      MACHINE_BREAKDOWN_TIME = (\<lambda>m. \<lparr>rmin = 100, rmax = 100\<rparr>),
      MACHINE_REPAIR_TIME = (\<lambda>m. \<lparr>rmin = 1, rmax = 1\<rparr>)\<rparr>"

definition threes :: rng where
  "threes = (\<lambda>n. 3)"

definition sevens :: rng where
  "sevens = (\<lambda>n. 7)"

text \<open>The state a run or a sweep leaves behind (\<open>d\<close> when it is still running).\<close>

definition final_state :: "(exn \<times> sim + 'a \<times> sim) option \<Rightarrow> sim \<Rightarrow> sim" where
  "final_state x d =
     (case x of None \<Rightarrow> d | Some (Inl (e, s)) \<Rightarrow> s | Some (Inr (v, s)) \<Rightarrow> s)"

text \<open>The module's tables with the breakdown interval of every machine type inverted.\<close>

definition inverted_config :: config where
  "inverted_config =
     module_config\<lparr>MACHINE_BREAKDOWN_TIME := (\<lambda>m. \<lparr>rmin = 8 * 60, rmax = 4 * 60\<rparr>)\<rparr>"

subsection \<open>Requests and the processes that made them\<close>

text \<open>The request a generator has made and not yet left the \<open>with\<close> block of: the machine
  type and the serial number.\<close>

fun holds_request :: "gen \<Rightarrow> (machine_type \<times> nat) option" where
  "holds_request (Breakdown m (BRequest r)) = Some (m, r)"
| "holds_request (Breakdown m (BRepair r)) = Some (m, r)"
| "holds_request (Product pt i st (PRequest m rest r)) = Some (m, r)"
| "holds_request (Product pt i st (PProcess m rest r c)) = Some (m, r)"
| "holds_request g = None"

text \<open>Every request among the users or in the queue of a resource is the current request
  of a process that is inside the \<open>with\<close> block for this machine type, and no request
  is there twice.\<close>

definition pool_ok :: "machine_type \<Rightarrow> nat \<Rightarrow> gen list \<Rightarrow> pool \<Rightarrow> bool" where
  "pool_ok m nr ps pl \<longleftrightarrow>
     distinct (users pl @ put_queue pl) \<and>
     (\<forall>(r, p) \<in> set (users pl @ put_queue pl).
        r < nr \<and> p < length ps \<and> holds_request (ps ! p) = Some (m, r))"

definition held_on :: "(machine_type \<Rightarrow> pool option) \<Rightarrow> nat \<Rightarrow> gen list \<Rightarrow> bool" where
  "held_on ms nr ps \<longleftrightarrow> (\<forall>m pl. ms m = Some pl \<longrightarrow> pool_ok m nr ps pl)"

text \<open>Process \<open>p\<close> has no request in any resource.\<close>

definition free_on :: "(machine_type \<Rightarrow> pool option) \<Rightarrow> nat \<Rightarrow> bool" where
  "free_on ms p \<longleftrightarrow>
     (\<forall>m pl r. ms m = Some pl \<longrightarrow> (r, p) \<notin> set (users pl @ put_queue pl))"

definition held :: "sim \<Rightarrow> bool" where
  "held s \<longleftrightarrow> held_on (machines s) (next_request s) (procs s)"

subsection \<open>The stages a unit has been at\<close>

text \<open>The machine types in the lines "... at <machine type>" that process \<open>p\<close> has printed,
  in the order of the output.\<close>

fun visit_of :: "nat \<Rightarrow> nat \<times> obs \<Rightarrow> machine_type list" where
  "visit_of p (q, AtStage pt i m t w) = (if q = p then [m] else [])"
| "visit_of p (q, ob) = []"

definition visited :: "nat \<Rightarrow> (nat \<times> obs) list \<Rightarrow> machine_type list" where
  "visited p tr = concat (map (visit_of p) tr)"

text \<open>The stages a \<open>produce_product\<close> generator has not printed yet (None once it has
  failed, and for the other generators).\<close>

fun to_visit :: "gen \<Rightarrow> machine_type list option" where
  "to_visit (Product pt i st PStart) = Some stages"
| "to_visit (Product pt i st (PRequest m rest r)) = Some (m # rest)"
| "to_visit (Product pt i st (PProcess m rest r c)) = Some rest"
| "to_visit (Product pt i st PFinished) = Some []"
| "to_visit g = None"

definition ordered_on :: "(nat \<times> obs) list \<Rightarrow> gen list \<Rightarrow> bool" where
  "ordered_on tr ps \<longleftrightarrow>
     (\<forall>(q, ob) \<in> set tr. q < length ps) \<and>
     (\<forall>p rest. p < length ps \<longrightarrow> to_visit (ps ! p) = Some rest \<longrightarrow>
        visited p tr @ rest = stages)"

text \<open>The same for a state, on the output since the run began (\<open>n0\<close> lines were there
  before).\<close>

definition ordered :: "nat \<Rightarrow> sim \<Rightarrow> bool" where
  "ordered n0 s \<longleftrightarrow> n0 \<le> length (trace s) \<and> ordered_on (drop n0 (trace s)) (procs s)"

subsection \<open>Unit numbers\<close>

text \<open>The numbers of the units of a product type, in the order in which they were started,
  and the counters \<open>i\<close> of the \<open>send_raw_material\<close> generators of that type.\<close>

fun unit_id_of :: "product_type \<Rightarrow> gen \<Rightarrow> nat list" where
  "unit_id_of pt (Product pt' i st pc) = (if pt' = pt then [i] else [])"
| "unit_id_of pt g = []"

fun counter_of :: "product_type \<Rightarrow> gen \<Rightarrow> nat list" where
  "counter_of pt (Arrival pt' i pc) = (if pt' = pt then [i] else [])"
| "counter_of pt g = []"

definition unit_ids :: "product_type \<Rightarrow> gen list \<Rightarrow> nat list" where
  "unit_ids pt ps = concat (map (unit_id_of pt) ps)"

definition counters :: "product_type \<Rightarrow> gen list \<Rightarrow> nat list" where
  "counters pt ps = concat (map (counter_of pt) ps)"

definition sequential :: "gen list \<Rightarrow> bool" where
  "sequential ps \<longleftrightarrow>
     (\<forall>pt. (counters pt ps = [] \<and> unit_ids pt ps = []) \<or>
           (\<exists>i. 1 \<le> i \<and> counters pt ps = [i] \<and> unit_ids pt ps = [1..<i]))"

subsection \<open>Breakdown processes\<close>

text \<open>The machine types of the \<open>generate_breakdown\<close> processes, in the order in which they
  were started.\<close>

fun breakdown_of :: "gen \<Rightarrow> machine_type list" where
  "breakdown_of (Breakdown m pc) = [m]"
| "breakdown_of g = []"

definition breakdowns :: "gen list \<Rightarrow> machine_type list" where
  "breakdowns ps = concat (map breakdown_of ps)"



text \<open>The quick line with every processing time inverted, and with breakdowns after one
  minute and every repair duration inverted.\<close>

definition inverted_processing_config :: config where
  "inverted_processing_config =
     quick_config\<lparr>PROCESSING_TIMES := (\<lambda>pt m. \<lparr>rmin = 2, rmax = 1\<rparr>)\<rparr>"

definition inverted_repair_config :: config where
  "inverted_repair_config =
     quick_config\<lparr>MACHINE_BREAKDOWN_TIME := (\<lambda>m. \<lparr>rmin = 1, rmax = 1\<rparr>),
                  MACHINE_REPAIR_TIME := (\<lambda>m. \<lparr>rmin = 2, rmax = 1\<rparr>)\<rparr>"

text \<open>What a run returns or raises and the time at which it ends.\<close>

definition result_at ::
  "(exn \<times> sim + 'a \<times> sim) option \<Rightarrow> (exn \<times> rat + 'a \<times> rat) option" where
  "result_at x = map_option (map_sum (\<lambda>(e, s). (e, now s)) (\<lambda>(v, s). (v, now s))) x"

text \<open>A scenario with no product type; with no machine either, the shift cycle is the
  only process of the run.\<close>

definition idle_config :: config where
  "idle_config = quick_config\<lparr>PRODUCT_TYPES := []\<rparr>"

text \<open>The shift changes in the output: label and time, in the order printed.\<close>

fun shift_of :: "nat \<times> obs \<Rightarrow> (shift \<times> rat) list" where
  "shift_of (p, ShiftChanged l t) = [(l, t)]"
| "shift_of (p, ob) = []"

definition shifts :: "(nat \<times> obs) list \<Rightarrow> (shift \<times> rat) list" where
  "shifts tr = concat (map shift_of tr)"

subsection \<open>Units of capacity\<close>

text \<open>The request \<open>r\<close> of process \<open>p\<close> is among the users of the resource of machine type
  \<open>m\<close>: it occupies one unit of its capacity.\<close>

definition in_users ::
  "(machine_type \<Rightarrow> pool option) \<Rightarrow> machine_type \<Rightarrow> nat \<Rightarrow> nat \<Rightarrow> bool" where
  "in_users ms m r p = (case ms m of None \<Rightarrow> False | Some pl \<Rightarrow> (r, p) \<in> set (users pl))"

text \<open>A resource never has more users than capacity, its queue is in the order in which
  the requests were made, and every request has a serial number already given out.\<close>

definition bounded_pool :: "nat \<Rightarrow> pool \<Rightarrow> bool" where
  "bounded_pool nr pl \<longleftrightarrow>
     int (length (users pl)) \<le> capacity pl \<and>
     sorted_wrt (<) (map fst (put_queue pl)) \<and>
     (\<forall>(r, p) \<in> set (users pl @ put_queue pl). r < nr)"

definition bounded_on :: "(machine_type \<Rightarrow> pool option) \<Rightarrow> nat \<Rightarrow> bool" where
  "bounded_on ms nr \<longleftrightarrow> (\<forall>m pl. ms m = Some pl \<longrightarrow> bounded_pool nr pl)"

definition bounded :: "sim \<Rightarrow> bool" where
  "bounded s \<longleftrightarrow> bounded_on (machines s) (next_request s)"

text \<open>The request a generator is using the machine with: a repair in progress, or a unit
  being processed.\<close>

fun occupies :: "gen \<Rightarrow> (machine_type \<times> nat) option" where
  "occupies (Breakdown m (BRepair r)) = Some (m, r)"
| "occupies (Product pt i st (PProcess m rest r c)) = Some (m, r)"
| "occupies g = None"

text \<open>A Request event in the event queue is the grant of a request: when the process it is
  for still has that request, the request is among the users.\<close>

fun request_ok ::
  "(machine_type \<Rightarrow> pool option) \<Rightarrow> nat \<Rightarrow> gen list \<Rightarrow> entry \<Rightarrow> bool" where
  "request_ok ms nr ps (t, pr, e, Request m r p) =
     (r < nr \<and> (p < length ps \<and> holds_request (ps ! p) = Some (m, r) \<longrightarrow> in_users ms m r p))"
| "request_ok ms nr ps (t, pr, e, ev) = True"

definition granted_on ::
  "(machine_type \<Rightarrow> pool option) \<Rightarrow> nat \<Rightarrow> gen list \<Rightarrow> entry list \<Rightarrow> bool" where
  "granted_on ms nr ps q \<longleftrightarrow>
     (\<forall>p < length ps. \<forall>m r. occupies (ps ! p) = Some (m, r) \<longrightarrow> in_users ms m r p) \<and>
     (\<forall>x \<in> set q. request_ok ms nr ps x)"

definition granted :: "sim \<Rightarrow> bool" where
  "granted s \<longleftrightarrow> granted_on (machines s) (next_request s) (procs s) (queue s)"

text \<open>The same while process \<open>p\<close> is running, between two of its \<open>yield\<close>s: nothing is said
  of \<open>p\<close> itself, and a grant for \<open>p\<close> is either older than the serial number \<open>b\<close> or among
  the users.\<close>

fun request_but ::
  "nat \<Rightarrow> nat \<Rightarrow> (machine_type \<Rightarrow> pool option) \<Rightarrow> nat \<Rightarrow> gen list \<Rightarrow> entry \<Rightarrow> bool" where
  "request_but p b ms nr ps (t, pr, e, Request m r p') =
     (r < nr \<and>
      (if p' = p then r < b \<or> in_users ms m r p
       else (p' < length ps \<and> holds_request (ps ! p') = Some (m, r) \<longrightarrow> in_users ms m r p')))"
| "request_but p b ms nr ps (t, pr, e, ev) = True"

definition granted_but_on ::
  "nat \<Rightarrow> nat \<Rightarrow> (machine_type \<Rightarrow> pool option) \<Rightarrow> nat \<Rightarrow> gen list \<Rightarrow> entry list \<Rightarrow> bool" where
  "granted_but_on p b ms nr ps q \<longleftrightarrow>
     (\<forall>p' < length ps. p' \<noteq> p \<longrightarrow>
        (\<forall>m r. occupies (ps ! p') = Some (m, r) \<longrightarrow> in_users ms m r p')) \<and>
     (\<forall>x \<in> set q. request_but p b ms nr ps x)"

definition granted_but :: "nat \<Rightarrow> nat \<Rightarrow> sim \<Rightarrow> bool" where
  "granted_but p b s \<longleftrightarrow>
     granted_but_on p b (machines s) (next_request s) (procs s) (queue s)"

text \<open>The Release events of machine type \<open>m\<close> in the event queue.\<close>

definition releases :: "machine_type \<Rightarrow> entry list \<Rightarrow> nat" where
  "releases m q = length (filter (\<lambda>(t, pr, e, ev). ev = Release m) q)"

text \<open>No wake-up is lost: while a request waits in the queue of a resource, every free unit
  of the resource has a Release event still to be processed (\<open>k\<close> of them).\<close>

definition woken_pool :: "int \<Rightarrow> pool \<Rightarrow> bool" where
  "woken_pool k pl \<longleftrightarrow>
     (put_queue pl \<noteq> [] \<longrightarrow> capacity pl - int (length (users pl)) \<le> k)"

definition woken_on :: "(machine_type \<Rightarrow> pool option) \<Rightarrow> entry list \<Rightarrow> bool" where
  "woken_on ms q \<longleftrightarrow> (\<forall>m pl. ms m = Some pl \<longrightarrow> woken_pool (int (releases m q)) pl)"

definition woken :: "sim \<Rightarrow> bool" where
  "woken s \<longleftrightarrow> woken_on (machines s) (queue s)"

(*DEFINITIONS-END*)

section \<open>Properties\<close>

subsection \<open>What each operation changes\<close>

lemma schedule_fields [simp]:
  "now (schedule ev pr d s) = now s"
  "procs (schedule ev pr d s) = procs s"
  "machines (schedule ev pr d s) = machines s"
  "next_request (schedule ev pr d s) = next_request s"
  "rng (schedule ev pr d s) = rng s"
  "PRODUCTS_PRODUCED (schedule ev pr d s) = PRODUCTS_PRODUCED s"
  "RAW_MATERIALS_USED (schedule ev pr d s) = RAW_MATERIALS_USED s"
  "trace (schedule ev pr d s) = trace s"
  "queue (schedule ev pr d s) = queue s @ [(now s + d, pr, eid s, ev)]"
  "eid (schedule ev pr d s) = Suc (eid s)"
  by (simp_all add: schedule_def)

lemma say_fields [simp]:
  "now (say p ob s) = now s"
  "procs (say p ob s) = procs s"
  "machines (say p ob s) = machines s"
  "next_request (say p ob s) = next_request s"
  "rng (say p ob s) = rng s"
  "PRODUCTS_PRODUCED (say p ob s) = PRODUCTS_PRODUCED s"
  "RAW_MATERIALS_USED (say p ob s) = RAW_MATERIALS_USED s"
  "trace (say p ob s) = trace s @ [(p, ob)]"
  "queue (say p ob s) = queue s"
  "eid (say p ob s) = eid s"
  by (simp_all add: say_def)

lemma fail_fields [simp]:
  "now (fail p g e s) = now s"
  "procs (fail p g e s) = (procs s)[p := g]"
  "machines (fail p g e s) = machines s"
  "next_request (fail p g e s) = next_request s"
  "rng (fail p g e s) = rng s"
  "PRODUCTS_PRODUCED (fail p g e s) = PRODUCTS_PRODUCED s"
  "RAW_MATERIALS_USED (fail p g e s) = RAW_MATERIALS_USED s"
  "trace (fail p g e s) = trace s"
  "queue (fail p g e s) = queue s @ [(now s, NORMAL, eid s, ProcessEnd p (Some e))]"
  "eid (fail p g e s) = Suc (eid s)"
  by (simp_all add: fail_def)

lemma trigger_put_fields [simp]:
  "now (trigger_put m s) = now s"
  "procs (trigger_put m s) = procs s"
  "next_request (trigger_put m s) = next_request s"
  "rng (trigger_put m s) = rng s"
  "PRODUCTS_PRODUCED (trigger_put m s) = PRODUCTS_PRODUCED s"
  "RAW_MATERIALS_USED (trigger_put m s) = RAW_MATERIALS_USED s"
  "trace (trigger_put m s) = trace s"
  by (simp_all add: trigger_put_def split: option.splits list.splits)

lemma cancel_fields [simp]:
  "now (cancel m r p s) = now s"
  "procs (cancel m r p s) = procs s"
  "next_request (cancel m r p s) = next_request s"
  "rng (cancel m r p s) = rng s"
  "PRODUCTS_PRODUCED (cancel m r p s) = PRODUCTS_PRODUCED s"
  "RAW_MATERIALS_USED (cancel m r p s) = RAW_MATERIALS_USED s"
  "trace (cancel m r p s) = trace s"
  "queue (cancel m r p s) = queue s"
  "eid (cancel m r p s) = eid s"
  by (simp_all add: cancel_def split: option.splits)

lemma release_fields [simp]:
  "now (release m r p s) = now s"
  "procs (release m r p s) = procs s"
  "next_request (release m r p s) = next_request s"
  "rng (release m r p s) = rng s"
  "PRODUCTS_PRODUCED (release m r p s) = PRODUCTS_PRODUCED s"
  "RAW_MATERIALS_USED (release m r p s) = RAW_MATERIALS_USED s"
  "trace (release m r p s) = trace s"
  by (simp_all add: release_def split: option.splits)

lemma exit_with_fields [simp]:
  "now (exit_with m r p s) = now s"
  "procs (exit_with m r p s) = procs s"
  "next_request (exit_with m r p s) = next_request s"
  "rng (exit_with m r p s) = rng s"
  "PRODUCTS_PRODUCED (exit_with m r p s) = PRODUCTS_PRODUCED s"
  "RAW_MATERIALS_USED (exit_with m r p s) = RAW_MATERIALS_USED s"
  "trace (exit_with m r p s) = trace s"
  by (simp_all add: exit_with_def)

lemma request_serial: "request m p s = Inr (r, s') \<Longrightarrow> r = next_request s"
  by (auto simp: request_def Let_def split: option.splits)

lemma request_fields:
  assumes "request m p s = Inr (r, s')"
  shows "next_request s' = Suc (next_request s)"
    "now s' = now s" "procs s' = procs s" "rng s' = rng s"
    "PRODUCTS_PRODUCED s' = PRODUCTS_PRODUCED s"
    "RAW_MATERIALS_USED s' = RAW_MATERIALS_USED s" "trace s' = trace s"
  using assms by (auto simp: request_def Let_def split: option.splits)

lemma timeout_Inr: "timeout p d s = Inr s' \<Longrightarrow> s' = schedule (Timeout p) NORMAL d s"
  by (simp add: timeout_def split: if_splits)

lemma process_fields [simp]:
  "fst (process g s) = length (procs s)"
  "now (snd (process g s)) = now s"
  "procs (snd (process g s)) = procs s @ [g]"
  "machines (snd (process g s)) = machines s"
  "next_request (snd (process g s)) = next_request s"
  "rng (snd (process g s)) = rng s"
  "PRODUCTS_PRODUCED (snd (process g s)) = PRODUCTS_PRODUCED s"
  "RAW_MATERIALS_USED (snd (process g s)) = RAW_MATERIALS_USED s"
  "trace (snd (process g s)) = trace s"
  "queue (snd (process g s)) = queue s @ [(now s, URGENT, eid s, Initialize (length (procs s)))]"
  "eid (snd (process g s)) = Suc (eid s)"
  by (simp_all add: process_def Let_def)

subsection \<open>Capacities\<close>

lemma make_machines_ValueError:
  "(\<exists>(m, q) \<in> set nm. q \<le> 0) \<Longrightarrow> make_machines nm acc = Inl ValueError"
  by (induction nm acc rule: make_machines.induct) auto

lemma make_machines_ok:
  "(\<forall>(m, q) \<in> set nm. 0 < q) \<Longrightarrow> \<exists>ms. make_machines nm acc = Inr ms"
  by (induction nm acc rule: make_machines.induct) auto

text \<open>
  C2, as the code has it: a scenario in which some machine type has a capacity of zero or
  less is rejected before anything is scheduled, and the exception is the ValueError of
  \<open>simpy.Resource\<close>: \<open>run_scenario\<close> raises it out of the dictionary comprehension and leaves
  the environment as it was (empty event queue, no process), only the two counters reset.
\<close>

theorem capacity_rejected:
  "\<exists>(m, q) \<in> set num_machines. q \<le> 0 \<Longrightarrow>
   run_scenario cfg fuel env num_machines shift_schedules t =
     Some (Inl (ValueError, env\<lparr>PRODUCTS_PRODUCED := 0, RAW_MATERIALS_USED := 0\<rparr>))"
  by (simp add: run_scenario_def prepare_def make_machines_ValueError)

theorem capacity_rejected_witness:
  "(\<exists>(m, q) \<in> set [(Machining, 1), (Assembly, 0::int)]. q \<le> 0) \<and>
   run_scenario module_config 0 (Environment (world zeros))
      [(Machining, 1), (Assembly, 0)] [] 20 =
     Some (Inl (ValueError, (Environment (world zeros))
                  \<lparr>PRODUCTS_PRODUCED := 0, RAW_MATERIALS_USED := 0\<rparr>))"
  using capacity_rejected [of "[(Machining, 1), (Assembly, 0)]" module_config 0
      "Environment (world zeros)" "[]" 20]
  by simp

text \<open>C2 as stated fails: with capacity 0 for Machining the exception that leaves
  \<open>run_scenario\<close> is ValueError, not InvalidRangeError.\<close>

theorem capacity_zero_counterexample:
  "run_scenario module_config 10 (Environment (world zeros))
      [(Machining, 0), (Assembly, 8), (QualityControl, 3), (Packaging, 2)] NUM_OPERATORS SIM_TIME =
     Some (Inl (ValueError, Environment (world zeros)))
   \<and> exn_name ValueError \<noteq> ''InvalidRangeError''"
  by (simp add: run_scenario_def prepare_def Environment_def world_def)

subsection \<open>The sweep\<close>

lemma run_combinations_append:
  "run_combinations cfg fuel t (xs @ ys) results w =
     (case run_combinations cfg fuel t xs results w of
        None \<Rightarrow> None
      | Some (Inl x) \<Rightarrow> Some (Inl x)
      | Some (Inr (results', w')) \<Rightarrow> run_combinations cfg fuel t ys results' w')"
  by (induction xs arbitrary: results w) (auto split: option.splits sum.splits prod.splits)

lemma shift_loop_combinations:
  "shift_loop cfg fuel t nm ssl results w =
     run_combinations cfg fuel t (map (Pair nm) ssl) results w"
  by (induction ssl arbitrary: results w) (auto split: option.splits sum.splits prod.splits)

lemma machines_loop_combinations:
  "machines_loop cfg fuel t nml ssl results w =
     run_combinations cfg fuel t (List.product nml ssl) results w"
  by (induction nml arbitrary: results w)
     (auto simp: run_combinations_append shift_loop_combinations
           split: option.splits sum.splits prod.splits)

lemma run_combinations_inputs:
  "run_combinations cfg fuel t combos results w = Some (Inr (results', w')) \<Longrightarrow>
   map inputs results' = map inputs results @ combos"
  by (induction combos arbitrary: results w)
     (auto simp: inputs_def split: option.splits sum.splits prod.splits)

subsection \<open>Invariants of the scheduler\<close>

lemma resume_invariant:
  assumes "I s"
    and "\<And>m pc. p < length (procs s) \<Longrightarrow> procs s ! p = Breakdown m pc \<Longrightarrow>
           I (generate_breakdown cfg p m pc ev s)"
    and "\<And>pt i pc. p < length (procs s) \<Longrightarrow> procs s ! p = Arrival pt i pc \<Longrightarrow>
           I (send_raw_material cfg p pt i pc ev s)"
    and "\<And>pt i st pc. p < length (procs s) \<Longrightarrow> procs s ! p = Product pt i st pc \<Longrightarrow>
           I (produce_product cfg p pt i st pc ev s)"
    and "\<And>pt m q pc. p < length (procs s) \<Longrightarrow> procs s ! p = Processing pt m q pc \<Longrightarrow>
           I (process_product cfg p pt m q pc ev s)"
    and "\<And>l pc. p < length (procs s) \<Longrightarrow> procs s ! p = ShiftCycle l pc \<Longrightarrow>
           I (change_shift p l pc ev s)"
  shows "I (resume cfg p ev s)"
proof (cases "p < length (procs s)")
  case True
  then show ?thesis using assms(2-6)
    by (cases "procs s ! p") (simp_all add: resume_def)
next
  case False
  then show ?thesis using assms(1) by (simp add: resume_def)
qed

lemma callbacks_invariant:
  assumes "I s" and "\<And>p. I (resume cfg p ev s)" and "\<And>m. I (trigger_put m s)"
    and "callbacks cfg ev s = Inr s'"
  shows "I s'"
  using assms
  by (cases ev) (auto simp: callbacks_def split: option.splits)

lemma env_step_invariant:
  assumes "I s"
    and "\<And>s t q. I s \<Longrightarrow> I (s\<lparr>now := t, queue := q\<rparr>)"
    and "\<And>s p ev. I s \<Longrightarrow> I (resume cfg p ev s)"
    and "\<And>s m. I s \<Longrightarrow> I (trigger_put m s)"
  shows "case env_step cfg s of Continue s' \<Rightarrow> I s' | Stop s' \<Rightarrow> I s' | Raise x s' \<Rightarrow> I s'"
proof (cases "heappop (queue s)")
  case None
  then show ?thesis using assms(1) by (simp add: env_step_def)
next
  case (Some a)
  obtain t pr e ev q where a: "a = ((t, pr, e, ev), q)" by (cases a) auto
  have 1: "I (s\<lparr>now := t, queue := q\<rparr>)" using assms(1,2) by blast
  show ?thesis
  proof (cases "callbacks cfg ev (s\<lparr>now := t, queue := q\<rparr>)")
    case (Inl x)
    then show ?thesis using Some a 1 by (simp add: env_step_def Let_def)
  next
    case (Inr s2)
    have "I s2"
      using callbacks_invariant [where I = I, OF 1 _ _ Inr] assms(3,4) 1 by blast
    then show ?thesis using Some a 1 Inr by (simp add: env_step_def Let_def)
  qed
qed

lemma after_invariant:
  assumes "I s"
    and "\<And>s t q. I s \<Longrightarrow> I (s\<lparr>now := t, queue := q\<rparr>)"
    and "\<And>s p ev. I s \<Longrightarrow> I (resume cfg p ev s)"
    and "\<And>s m. I s \<Longrightarrow> I (trigger_put m s)"
  shows "I (after cfg n s)"
  using assms(1)
proof (induction n arbitrary: s)
  case 0
  then show ?case by simp
next
  case (Suc n)
  have "case env_step cfg s of Continue s' \<Rightarrow> I s' | Stop s' \<Rightarrow> I s' | Raise x s' \<Rightarrow> I s'"
    using env_step_invariant [where I = I, OF Suc.prems assms(2-4)] by blast
  then show ?case using Suc.IH by (cases "env_step cfg s") simp_all
qed

lemma env_run_after:
  "env_run cfg fuel s = Some r \<Longrightarrow> \<exists>n. (case r of Inl (x, s') \<Rightarrow> s' | Inr s' \<Rightarrow> s') = after cfg n s"
proof (induction fuel arbitrary: s)
  case 0
  then show ?case by simp
next
  case (Suc fuel)
  show ?case
  proof (cases "env_step cfg s")
    case (Continue s1)
    with Suc obtain n where
      "(case r of Inl (x, s') \<Rightarrow> s' | Inr s' \<Rightarrow> s') = after cfg n s1" by auto
    then have "(case r of Inl (x, s') \<Rightarrow> s' | Inr s' \<Rightarrow> s') = after cfg (Suc n) s"
      using Continue by simp
    then show ?thesis by blast
  next
    case (Stop s1)
    with Suc.prems have "(case r of Inl (x, s') \<Rightarrow> s' | Inr s' \<Rightarrow> s') = after cfg (Suc 0) s"
      by auto
    then show ?thesis by blast
  next
    case (Raise x s1)
    with Suc.prems have "(case r of Inl (x, s') \<Rightarrow> s' | Inr s' \<Rightarrow> s') = after cfg (Suc 0) s"
      by auto
    then show ?thesis by blast
  qed
qed

lemma start_processes_fields [simp]:
  "procs (start_processes gs s) = procs s @ gs"
  "now (start_processes gs s) = now s"
  "machines (start_processes gs s) = machines s"
  "next_request (start_processes gs s) = next_request s"
  "rng (start_processes gs s) = rng s"
  "PRODUCTS_PRODUCED (start_processes gs s) = PRODUCTS_PRODUCED s"
  "RAW_MATERIALS_USED (start_processes gs s) = RAW_MATERIALS_USED s"
  "trace (start_processes gs s) = trace s"
  by (induction gs arbitrary: s) (simp_all add: start_processes_def)

lemma filter_update_same:
  "(p < length xs \<Longrightarrow> P g = P (xs ! p)) \<Longrightarrow>
   length (filter P (xs[p := g])) = length (filter P xs)"
proof (induction xs arbitrary: p)
  case Nil
  then show ?case by simp
next
  case (Cons x xs)
  then show ?case by (cases p) auto
qed

lemma filter_update_gain:
  "p < length xs \<Longrightarrow> \<not> P (xs ! p) \<Longrightarrow> P g \<Longrightarrow>
   length (filter P (xs[p := g])) = Suc (length (filter P xs))"
proof (induction xs arbitrary: p)
  case Nil
  then show ?case by simp
next
  case (Cons x xs)
  then show ?case by (cases p) auto
qed

lemma is_finished_Product [simp]: "is_finished (Product pt i st pc) = (pc = PFinished)"
  by (cases pc) simp_all

lemma counted_trigger_put: "counted s \<Longrightarrow> counted (trigger_put m s)"
  by (simp add: counted_def)

lemma counted_breakdown:
  "counted s \<Longrightarrow> p < length (procs s) \<Longrightarrow> procs s ! p = Breakdown m pc \<Longrightarrow>
   counted (generate_breakdown cfg p m pc ev s)"
  by (cases pc)
     (simp_all add: counted_def generate_breakdown_def breakdown_loop_def breakdown_repair_def
        timeout_def randint_def filter_update_same request_fields
        split: sum.splits prod.splits)

lemma counted_processing:
  "counted s \<Longrightarrow> p < length (procs s) \<Longrightarrow> procs s ! p = Processing pt m q pc \<Longrightarrow>
   counted (process_product cfg p pt m q pc ev s)"
  by (cases pc)
     (simp_all add: counted_def process_product_def timeout_def randint_def filter_update_same)

lemma counted_shift:
  "counted s \<Longrightarrow> p < length (procs s) \<Longrightarrow> procs s ! p = ShiftCycle l pc \<Longrightarrow>
   counted (change_shift p l pc ev s)"
  by (cases pc) (simp_all add: counted_def change_shift_def Let_def filter_update_same)

lemma counted_arrival:
  "counted s \<Longrightarrow> p < length (procs s) \<Longrightarrow> procs s ! p = Arrival pt i pc \<Longrightarrow>
   counted (send_raw_material cfg p pt i pc ev s)"
  by (cases pc)
     (simp_all add: counted_def send_raw_material_def arrival_loop_def expovariate_def
        timeout_def Let_def split_beta filter_update_same nth_append)

lemma counted_product_loop:
  "counted s \<Longrightarrow> p < length (procs s) \<Longrightarrow> procs s ! p = Product pt i st pc \<Longrightarrow>
   pc \<noteq> PFinished \<Longrightarrow> counted (product_loop p pt i st' ms s)"
  by (cases ms)
     (simp_all add: counted_def product_loop_def Let_def filter_update_same filter_update_gain
        request_fields split: sum.splits prod.splits)

lemma counted_product:
  "counted s \<Longrightarrow> p < length (procs s) \<Longrightarrow> procs s ! p = Product pt i st pc \<Longrightarrow>
   counted (produce_product cfg p pt i st pc ev s)"
proof (cases pc)
  case PStart
  assume "counted s" "p < length (procs s)" "procs s ! p = Product pt i st pc"
  then show ?thesis using PStart
      counted_product_loop [of "say p (Entered pt i (now s)) s" p pt i st pc "now s" stages]
    by (simp add: produce_product_def counted_def)
next
  case (PRequest m rest r)
  assume "counted s" "p < length (procs s)" "procs s ! p = Product pt i st pc"
  then show ?thesis using PRequest
    by (simp add: produce_product_def counted_def Let_def split_beta filter_update_same nth_append)
next
  case (PProcess m rest r c)
  assume a: "counted s" "p < length (procs s)" "procs s ! p = Product pt i st pc"
  then have "counted (product_loop p pt i (now s) rest (exit_with m r p s))"
    using PProcess counted_product_loop [of "exit_with m r p s" p pt i st pc "now s" rest]
    by (simp add: counted_def)
  then show ?thesis using a PProcess
    by (cases ev) (simp_all add: produce_product_def counted_def filter_update_same
                      split: option.splits)
next
  case PFinished
  assume "counted s"
  then show ?thesis using PFinished by (simp add: produce_product_def)
next
  case PFailed
  assume "counted s"
  then show ?thesis using PFailed by (simp add: produce_product_def)
qed

lemma counted_resume: "counted s \<Longrightarrow> counted (resume cfg p ev s)"
  by (rule resume_invariant)
     (simp_all add: counted_breakdown counted_arrival counted_product counted_processing
        counted_shift)

lemma counted_after: "counted s \<Longrightarrow> counted (after cfg n s)"
  by (rule after_invariant) (simp_all add: counted_resume counted_trigger_put, simp add: counted_def)

lemma prepare_procs:
  "prepare cfg nm env = Inr s \<Longrightarrow>
   procs s = procs env @ map (\<lambda>m. Breakdown m BStart) (map fst nm)
             @ map (\<lambda>pt. Arrival pt 1 AStart) (PRODUCT_TYPES cfg) @ [ShiftCycle Day SStart]"
  by (auto simp: prepare_def Let_def split: sum.splits)

lemma counted_started:
  "started cfg (Environment w) nm t = Some s \<Longrightarrow> counted s"
  by (auto simp: started_def prepare_def Let_def counted_def Environment_def comp_def
      split: sum.splits if_splits)

subsection \<open>Conservation\<close>

lemma result_Inr: "result x = Some (Inr v) \<Longrightarrow> \<exists>s'. x = Some (Inr (v, s'))"
proof (cases x)
  case None
  assume "result x = Some (Inr v)"
  then show ?thesis using None by (simp add: result_def)
next
  case (Some a)
  assume "result x = Some (Inr v)"
  then show ?thesis using Some by (cases a) (auto simp: result_def)
qed

lemma run_scenario_after:
  assumes "run_scenario cfg fuel env nm ss t = Some (Inr (v, s'))"
  shows "\<exists>s n. started cfg env nm t = Some s \<and> s' = after cfg n s
           \<and> v = (PRODUCTS_PRODUCED s', RAW_MATERIALS_USED s')"
proof (cases "prepare cfg nm env")
  case (Inl x)
  then show ?thesis using assms by (simp add: run_scenario_def)
next
  case (Inr s0)
  show ?thesis
  proof (cases "t \<le> now s0")
    case True
    then show ?thesis using assms Inr by (simp add: run_scenario_def run_until_def)
  next
    case False
    let ?s = "schedule Until URGENT (t - now s0) s0"
    have st: "started cfg env nm t = Some ?s"
      using Inr False by (simp add: started_def)
    have run: "env_run cfg fuel ?s = Some (Inr s')"
      and v: "v = (PRODUCTS_PRODUCED s', RAW_MATERIALS_USED s')"
      using assms Inr False
      by (auto simp: run_scenario_def run_until_def split: option.splits sum.splits)
    from env_run_after [OF run] obtain n where "s' = after cfg n ?s" by auto
    then show ?thesis using st v by blast
  qed
qed

lemma quick_run:
  "result (run_scenario quick_config 100 (Environment (world threes)) unit_capacities [] 8)
   = Some (Inr (1, 2))"
  by code_simp

lemma quick_started:
  "\<exists>s. started quick_config (Environment (world threes)) unit_capacities 8 = Some s"
  by (simp add: started_def prepare_def unit_capacities_def Environment_def)

text \<open>
  C5: at every instant of a run in a new environment (after any number of scheduler steps)
  the produced count is at most the raw-materials count, and so it is in every Run Result:
  \<open>RAW_MATERIALS_USED\<close> counts the \<open>produce_product\<close> processes started and
  \<open>PRODUCTS_PRODUCED\<close> those of them that have run to their end.
\<close>

theorem conservation:
  "(\<forall>s n. started cfg (Environment w) num_machines t = Some s \<longrightarrow>
      PRODUCTS_PRODUCED (after cfg n s) \<le> RAW_MATERIALS_USED (after cfg n s))
   \<and> (\<forall>fuel shift_schedules produced raw s'.
        run_scenario cfg fuel (Environment w) num_machines shift_schedules t =
          Some (Inr ((produced, raw), s')) \<longrightarrow> produced \<le> raw)"
proof -
  have inst: "PRODUCTS_PRODUCED (after cfg n s) \<le> RAW_MATERIALS_USED (after cfg n s)"
    if "started cfg (Environment w) num_machines t = Some s" for s n
  proof -
    have "counted (after cfg n s)"
      using that by (intro counted_after counted_started)
    then have "PRODUCTS_PRODUCED (after cfg n s) = length (filter is_finished (procs (after cfg n s)))"
      and "RAW_MATERIALS_USED (after cfg n s) = length (filter is_product (procs (after cfg n s)))"
      by (simp_all add: counted_def)
    moreover have "length (filter is_finished xs) \<le> length (filter is_product xs)" for xs
    proof (induction xs)
      case Nil
      then show ?case by simp
    next
      case (Cons g xs)
      then show ?case by (cases g) auto
    qed
    ultimately show ?thesis by simp
  qed
  have "produced \<le> raw"
    if "run_scenario cfg fuel (Environment w) num_machines ss t = Some (Inr ((produced, raw), s'))"
    for fuel ss produced raw s'
    using run_scenario_after [OF that] inst by auto
  with inst show ?thesis by blast
qed

theorem conservation_witness:
  "(\<exists>s. started quick_config (Environment (world threes)) unit_capacities 8 = Some s
        \<and> PRODUCTS_PRODUCED (after quick_config 30 s) \<le> RAW_MATERIALS_USED (after quick_config 30 s))
   \<and> (\<exists>s'. run_scenario quick_config 100 (Environment (world threes)) unit_capacities [] 8 =
          Some (Inr ((1, 2), s')) \<and> (1::nat) \<le> 2)"
  using conservation [of quick_config "world threes" unit_capacities 8]
    quick_started result_Inr [OF quick_run]
  by auto

subsection \<open>Ranges at construction\<close>

lemma prepare_ok:
  "(\<forall>(m, q) \<in> set nm. 0 < q) \<Longrightarrow> \<not> isl (prepare cfg nm env)"
  using make_machines_ok [of nm Map.empty]
  by (auto simp: prepare_def Let_def)

subsection \<open>Requests held\<close>

lemma pool_ok_update_other:
  assumes "pool_ok m nr ps pl" and "\<forall>r. (r, p) \<notin> set (users pl @ put_queue pl)"
  shows "pool_ok m nr (ps[p := g]) pl"
  unfolding pool_ok_def
proof (intro conjI ballI)
  show "distinct (users pl @ put_queue pl)" using assms(1) by (simp add: pool_ok_def)
next
  fix x assume x: "x \<in> set (users pl @ put_queue pl)"
  obtain r q where rq: "x = (r, q)" by (cases x)
  have "q \<noteq> p" using assms(2) x rq by auto
  moreover have "r < nr \<and> q < length ps \<and> holds_request (ps ! q) = Some (m, r)"
    using assms(1) x rq by (auto simp: pool_ok_def)
  ultimately show "case x of (r, p') \<Rightarrow>
      r < nr \<and> p' < length (ps[p := g]) \<and> holds_request (ps[p := g] ! p') = Some (m, r)"
    using rq by simp
qed

lemma pool_ok_update_same:
  assumes "pool_ok m nr ps pl" and "p < length ps \<Longrightarrow> holds_request g = holds_request (ps ! p)"
  shows "pool_ok m nr (ps[p := g]) pl"
  unfolding pool_ok_def
proof (intro conjI ballI)
  show "distinct (users pl @ put_queue pl)" using assms(1) by (simp add: pool_ok_def)
next
  fix x assume x: "x \<in> set (users pl @ put_queue pl)"
  obtain r q where rq: "x = (r, q)" by (cases x)
  have *: "r < nr \<and> q < length ps \<and> holds_request (ps ! q) = Some (m, r)"
    using assms(1) x rq by (auto simp: pool_ok_def)
  then have "holds_request (ps[p := g] ! q) = Some (m, r)"
    using assms(2) by (cases "q = p") simp_all
  then show "case x of (r, p') \<Rightarrow>
      r < nr \<and> p' < length (ps[p := g]) \<and> holds_request (ps[p := g] ! p') = Some (m, r)"
    using rq * by simp
qed

lemma pool_ok_append:
  assumes "pool_ok m nr ps pl"
  shows "pool_ok m nr (ps @ [g]) pl"
  unfolding pool_ok_def
proof (intro conjI ballI)
  show "distinct (users pl @ put_queue pl)" using assms(1) by (simp add: pool_ok_def)
next
  fix x assume x: "x \<in> set (users pl @ put_queue pl)"
  obtain r q where rq: "x = (r, q)" by (cases x)
  have *: "r < nr \<and> q < length ps \<and> holds_request (ps ! q) = Some (m, r)"
    using assms(1) x rq by (auto simp: pool_ok_def)
  then show "case x of (r, p') \<Rightarrow>
      r < nr \<and> p' < length (ps @ [g]) \<and> holds_request ((ps @ [g]) ! p') = Some (m, r)"
    using rq by (simp add: nth_append)
qed

lemma pool_ok_mono: "pool_ok m nr ps pl \<Longrightarrow> nr \<le> nr' \<Longrightarrow> pool_ok m nr' ps pl"
  unfolding pool_ok_def by fastforce

lemma pool_ok_grant:
  assumes "pool_ok m nr ps pl" and "put_queue pl = x # rest"
  shows "pool_ok m nr ps (pl\<lparr>users := users pl @ [x], put_queue := rest\<rparr>)"
proof -
  have "distinct (users pl @ x # rest)"
    and "\<forall>(r, p) \<in> set (users pl @ x # rest).
           r < nr \<and> p < length ps \<and> holds_request (ps ! p) = Some (m, r)"
    using assms by (simp_all add: pool_ok_def)
  then show ?thesis by (simp add: pool_ok_def)
qed

lemma pool_ok_enqueue:
  assumes "pool_ok m nr ps pl" and "p < length ps" and "holds_request (ps ! p) = Some (m, nr)"
  shows "pool_ok m (Suc nr) ps (pl\<lparr>put_queue := put_queue pl @ [(nr, p)]\<rparr>)"
proof -
  have d: "distinct (users pl @ put_queue pl)"
    and a: "\<forall>(r, p) \<in> set (users pl @ put_queue pl).
           r < nr \<and> p < length ps \<and> holds_request (ps ! p) = Some (m, r)"
    using assms(1) by (simp_all add: pool_ok_def)
  have "(nr, p) \<notin> set (users pl @ put_queue pl)" using a by fastforce
  then have "distinct (users pl @ put_queue pl @ [(nr, p)])" using d by simp
  moreover have "\<forall>(r, q) \<in> set (users pl @ put_queue pl @ [(nr, p)]).
           r < Suc nr \<and> q < length ps \<and> holds_request (ps ! q) = Some (m, r)"
    using a assms(2,3) by (auto simp: less_Suc_eq)
  ultimately show ?thesis by (simp add: pool_ok_def)
qed

lemma pool_ok_remove:
  assumes "pool_ok m nr ps pl"
  shows "pool_ok m nr ps (pl\<lparr>users := remove1 x (users pl)\<rparr>)"
proof -
  have d: "distinct (users pl @ put_queue pl)"
    and a: "\<forall>(r, p) \<in> set (users pl @ put_queue pl).
           r < nr \<and> p < length ps \<and> holds_request (ps ! p) = Some (m, r)"
    using assms(1) by (simp_all add: pool_ok_def)
  have "set (remove1 x (users pl)) \<subseteq> set (users pl)" by (rule set_remove1_subset)
  then have "distinct (remove1 x (users pl) @ put_queue pl)"
    and "\<forall>(r, p) \<in> set (remove1 x (users pl) @ put_queue pl).
           r < nr \<and> p < length ps \<and> holds_request (ps ! p) = Some (m, r)"
    using d a by auto
  then show ?thesis by (simp add: pool_ok_def)
qed


lemma held_on_update_free:
  assumes "held_on ms nr ps" and "free_on ms p"
  shows "held_on ms nr (ps[p := g])"
  unfolding held_on_def
proof (intro allI impI)
  fix m pl assume a: "ms m = Some pl"
  then have "pool_ok m nr ps pl" using assms(1) by (simp add: held_on_def)
  moreover have "\<forall>r. (r, p) \<notin> set (users pl @ put_queue pl)"
    using assms(2) a unfolding free_on_def by blast
  ultimately show "pool_ok m nr (ps[p := g]) pl" by (rule pool_ok_update_other)
qed

lemma held_on_update_same:
  assumes "held_on ms nr ps" and "p < length ps \<Longrightarrow> holds_request g = holds_request (ps ! p)"
  shows "held_on ms nr (ps[p := g])"
  unfolding held_on_def
proof (intro allI impI)
  fix m pl assume a: "ms m = Some pl"
  then have "pool_ok m nr ps pl" using assms(1) by (simp add: held_on_def)
  then show "pool_ok m nr (ps[p := g]) pl" using assms(2) by (rule pool_ok_update_same)
qed

lemma held_on_append:
  assumes "held_on ms nr ps"
  shows "held_on ms nr (ps @ [g])"
  unfolding held_on_def
proof (intro allI impI)
  fix m pl assume a: "ms m = Some pl"
  then have "pool_ok m nr ps pl" using assms(1) by (simp add: held_on_def)
  then show "pool_ok m nr (ps @ [g]) pl" by (rule pool_ok_append)
qed

lemma pool_ok_holds:
  "pool_ok m nr ps pl \<Longrightarrow> (r, p) \<in> set (users pl @ put_queue pl) \<Longrightarrow>
   holds_request (ps ! p) = Some (m, r)"
  unfolding pool_ok_def by blast

lemma held_on_free:
  assumes "held_on ms nr ps" and "holds_request (ps ! p) = None"
  shows "free_on ms p"
  unfolding free_on_def
proof (intro allI impI)
  fix m pl r assume "ms m = Some pl"
  then have "pool_ok m nr ps pl" using assms(1) by (simp add: held_on_def)
  then show "(r, p) \<notin> set (users pl @ put_queue pl)"
    using assms(2) pool_ok_holds [of m nr ps pl r p] by auto
qed

lemma held_on_upd:
  "held_on ms nr ps \<Longrightarrow> pool_ok m nr ps pl \<Longrightarrow> held_on (ms(m \<mapsto> pl)) nr ps"
  unfolding held_on_def by simp

lemma held_on_mono:
  assumes "held_on ms nr ps" and "nr \<le> nr'"
  shows "held_on ms nr' ps"
  unfolding held_on_def
proof (intro allI impI)
  fix m pl assume a: "ms m = Some pl"
  then have "pool_ok m nr ps pl" using assms(1) by (simp add: held_on_def)
  then show "pool_ok m nr' ps pl" using assms(2) by (rule pool_ok_mono)
qed

lemma machines_trigger_put:
  "machines (trigger_put m s) =
     (case machines s m of
        None \<Rightarrow> machines s
      | Some pl \<Rightarrow>
          (case put_queue pl of
             [] \<Rightarrow> machines s
           | x # rest \<Rightarrow>
               if int (length (users pl)) < capacity pl
               then (machines s)(m \<mapsto> pl\<lparr>users := users pl @ [x], put_queue := rest\<rparr>)
               else machines s))"
  by (simp add: trigger_put_def split: option.splits list.splits)

lemma machines_release:
  "machines (release m r p s) =
     (case machines s m of
        None \<Rightarrow> machines s
      | Some pl \<Rightarrow> (machines s)(m \<mapsto> pl\<lparr>users := remove1 (r, p) (users pl)\<rparr>))"
  by (simp add: release_def split: option.splits)

lemma machines_cancel:
  "machines (cancel m r p s) =
     (case machines s m of
        None \<Rightarrow> machines s
      | Some pl \<Rightarrow> (machines s)(m \<mapsto> pl\<lparr>put_queue := remove1 (r, p) (put_queue pl)\<rparr>))"
  by (simp add: cancel_def split: option.splits)

lemma machines_exit_with:
  "machines (exit_with m r p s) =
     (case machines s m of
        None \<Rightarrow> machines s
      | Some pl \<Rightarrow>
          (machines s)(m \<mapsto> pl\<lparr>put_queue := remove1 (r, p) (put_queue pl),
                                  users := remove1 (r, p) (users pl)\<rparr>))"
  by (cases "machines s m") (simp_all add: exit_with_def machines_release machines_cancel)

lemma pool_ok_exit:
  assumes "pool_ok m nr ps pl"
  shows "pool_ok m nr ps (pl\<lparr>put_queue := remove1 x (put_queue pl),
                               users := remove1 x (users pl)\<rparr>)"
    and "x \<notin> set (remove1 x (users pl) @ remove1 x (put_queue pl))"
proof -
  have d: "distinct (users pl @ put_queue pl)"
    and a: "\<forall>(r, p) \<in> set (users pl @ put_queue pl).
           r < nr \<and> p < length ps \<and> holds_request (ps ! p) = Some (m, r)"
    using assms(1) by (simp_all add: pool_ok_def)
  have sub: "set (remove1 x (users pl)) \<subseteq> set (users pl)"
    "set (remove1 x (put_queue pl)) \<subseteq> set (put_queue pl)"
    by (rule set_remove1_subset)+
  have d1: "distinct (users pl)" and d2: "distinct (put_queue pl)"
    and d3: "set (users pl) \<inter> set (put_queue pl) = {}"
    using d by simp_all
  have "distinct (remove1 x (users pl) @ remove1 x (put_queue pl))"
    using d1 d2 d3 sub by (simp add: distinct_remove1) blast
  moreover have "\<forall>(r, p) \<in> set (remove1 x (users pl) @ remove1 x (put_queue pl)).
           r < nr \<and> p < length ps \<and> holds_request (ps ! p) = Some (m, r)"
    using a sub by auto
  ultimately show "pool_ok m nr ps (pl\<lparr>put_queue := remove1 x (put_queue pl),
                               users := remove1 x (users pl)\<rparr>)"
    by (simp add: pool_ok_def)
  show "x \<notin> set (remove1 x (users pl) @ remove1 x (put_queue pl))"
    using d1 d2 by simp
qed


lemma held_on_trigger_put:
  assumes "held_on (machines s) nr ps"
  shows "held_on (machines (trigger_put m s)) nr ps"
proof (cases "machines s m")
  case None
  then show ?thesis using assms by (simp add: machines_trigger_put)
next
  case (Some pl)
  then have ok: "pool_ok m nr ps pl" using assms by (simp add: held_on_def)
  show ?thesis
  proof (cases "put_queue pl")
    case Nil
    then show ?thesis using assms Some by (simp add: machines_trigger_put)
  next
    case (Cons x rest)
    then show ?thesis
      using assms Some held_on_upd [OF assms pool_ok_grant [OF ok Cons]]
      by (simp add: machines_trigger_put)
  qed
qed

lemma held_on_request:
  assumes "request m p s = Inr (r, s')"
    and "held_on (machines s) (next_request s) ps"
    and "p < length ps"
    and "holds_request (ps ! p) = Some (m, r)"
  shows "held_on (machines s') (next_request s') ps"
proof -
  obtain pl where pl: "machines s m = Some pl"
    using assms(1) by (cases "machines s m") (simp_all add: request_def)
  define s1 where "s1 = s\<lparr>machines := (machines s)(m \<mapsto>
      pl\<lparr>put_queue := put_queue pl @ [(next_request s, p)]\<rparr>),
      next_request := next_request s + 1\<rparr>"
  have r: "r = next_request s" and s': "s' = trigger_put m s1"
    using assms(1) pl by (auto simp: request_def Let_def s1_def)
  have "pool_ok m (next_request s) ps pl" using assms(2) pl by (simp add: held_on_def)
  then have 1: "pool_ok m (Suc (next_request s)) ps
       (pl\<lparr>put_queue := put_queue pl @ [(next_request s, p)]\<rparr>)"
    using assms(3,4) r by (intro pool_ok_enqueue) simp_all
  have "held_on (machines s) (Suc (next_request s)) ps"
    using assms(2) by (rule held_on_mono) simp
  then have "held_on (machines s1) (Suc (next_request s)) ps"
    using 1 by (simp add: s1_def held_on_upd)
  then have "held_on (machines (trigger_put m s1)) (Suc (next_request s)) ps"
    by (rule held_on_trigger_put)
  then show ?thesis using s' by (simp add: s1_def)
qed

lemma held_on_exit_with:
  assumes "held_on (machines s) nr ps"
  shows "held_on (machines (exit_with m r p s)) nr ps"
proof (cases "machines s m")
  case None
  then show ?thesis using assms by (simp add: machines_exit_with)
next
  case (Some pl)
  then have "pool_ok m nr ps pl" using assms by (simp add: held_on_def)
  then have "pool_ok m nr ps (pl\<lparr>put_queue := remove1 (r, p) (put_queue pl),
                                   users := remove1 (r, p) (users pl)\<rparr>)"
    by (rule pool_ok_exit)
  then show ?thesis using assms Some by (simp add: machines_exit_with held_on_upd)
qed

lemma free_on_exit_with:
  assumes "held_on (machines s) nr ps" and "holds_request (ps ! p) = Some (m, r)"
  shows "free_on (machines (exit_with m r p s)) p"
  unfolding free_on_def
proof (intro allI impI)
  fix m' pl' r'
  assume a: "machines (exit_with m r p s) m' = Some pl'"
  show "(r', p) \<notin> set (users pl' @ put_queue pl')"
  proof
    assume b: "(r', p) \<in> set (users pl' @ put_queue pl')"
    have ok': "pool_ok m' nr ps pl'"
      using held_on_exit_with [OF assms(1), of m r p] a by (simp add: held_on_def)
    then have "holds_request (ps ! p) = Some (m', r')"
      using b by (rule pool_ok_holds)
    then have eq: "m' = m" "r' = r" using assms(2) by simp_all
    obtain pl where pl: "machines s m = Some pl"
      and pl': "pl' = pl\<lparr>put_queue := remove1 (r, p) (put_queue pl),
                          users := remove1 (r, p) (users pl)\<rparr>"
      using a eq by (cases "machines s m") (simp_all add: machines_exit_with)
    have "pool_ok m nr ps pl" using assms(1) pl by (simp add: held_on_def)
    then have "(r, p) \<notin> set (remove1 (r, p) (users pl) @ remove1 (r, p) (put_queue pl))"
      by (rule pool_ok_exit)
    then show False using b eq pl' by simp
  qed
qed


lemma held_fields:
  "machines s' = machines s \<Longrightarrow> next_request s' = next_request s \<Longrightarrow>
   procs s' = procs s \<Longrightarrow> held s' = held s"
  by (simp add: held_def)

lemma held_trigger_put: "held s \<Longrightarrow> held (trigger_put m s)"
  by (simp add: held_def held_on_trigger_put)

lemma request_Inl: "request m p s = Inl e \<Longrightarrow> e = KeyError"
  by (cases "machines s m") (simp_all add: request_def Let_def)

text \<open>A process without a request makes one and records it.\<close>

lemma held_request:
  assumes "held s" and "free_on (machines s) p" and "p < length (procs s)"
    and "request m p s = Inr (r, s')" and "holds_request g = Some (m, r)"
  shows "held (s'\<lparr>procs := (procs s')[p := g]\<rparr>)"
proof -
  let ?ps = "(procs s)[p := g]"
  have "held_on (machines s) (next_request s) ?ps"
    using assms(1,2) by (simp add: held_def held_on_update_free)
  then have "held_on (machines s') (next_request s') ?ps"
    using assms(3,5) by (intro held_on_request [OF assms(4)]) simp_all
  then show ?thesis using request_fields(3) [OF assms(4)] by (simp add: held_def)
qed

lemma held_update_free:
  "held s \<Longrightarrow> free_on (machines s) p \<Longrightarrow> held (s\<lparr>procs := (procs s)[p := g]\<rparr>)"
  by (simp add: held_def held_on_update_free)

lemma held_update_same:
  "held s \<Longrightarrow> (p < length (procs s) \<Longrightarrow> holds_request g = holds_request (procs s ! p)) \<Longrightarrow>
   held (s\<lparr>procs := (procs s)[p := g]\<rparr>)"
  by (simp add: held_def held_on_update_same)

lemma held_free: "held s \<Longrightarrow> holds_request (procs s ! p) = None \<Longrightarrow> free_on (machines s) p"
  unfolding held_def by (rule held_on_free)

lemma held_exit_with:
  assumes "held s"
  shows "held (exit_with m r p s)"
  using assms by (simp add: held_def held_on_exit_with)

lemma free_exit_with:
  "held s \<Longrightarrow> holds_request (procs s ! p) = Some (m, r) \<Longrightarrow>
   free_on (machines (exit_with m r p s)) p"
  unfolding held_def by (rule free_on_exit_with)

lemma held_breakdown_loop:
  assumes "held s" and "free_on (machines s) p"
  shows "held (breakdown_loop cfg p m s)"
proof -
  have "held (s\<lparr>procs := (procs s)[p := g]\<rparr>)" for g
    using assms by (rule held_update_free)
  then have *: "held_on (machines s) (next_request s) ((procs s)[p := g])" for g
    by (simp add: held_def)
  show ?thesis
    by (simp add: breakdown_loop_def randint_def timeout_def held_def *)
qed

lemma machines_exit_with_rng [simp]:
  "machines (exit_with m r p (s\<lparr>rng := g\<rparr>)) = machines (exit_with m r p s)"
  by (cases "machines s m") (simp_all add: machines_exit_with)

lemma held_breakdown_repair:
  assumes "held s" and "p < length (procs s)" and "procs s ! p = Breakdown m (BRequest r)"
  shows "held (breakdown_repair cfg p m r s)"
proof -
  have 1: "held (s\<lparr>procs := (procs s)[p := Breakdown m (BRepair r)]\<rparr>)"
    using assms by (intro held_update_same) simp_all
  have "held (exit_with m r p s)" using assms(1) by (rule held_exit_with)
  moreover have "free_on (machines (exit_with m r p s)) p"
    using assms by (intro free_exit_with) simp_all
  ultimately have "held ((exit_with m r p s)\<lparr>procs := (procs (exit_with m r p s))[p := g]\<rparr>)" for g
    by (rule held_update_free)
  then have 2: "held_on (machines (exit_with m r p s)) (next_request s) ((procs s)[p := g])"
    for g by (simp add: held_def)
  show ?thesis
    using 1 by (simp add: breakdown_repair_def randint_def timeout_def held_def 2)
qed

lemma held_breakdown:
  assumes "held s" and "p < length (procs s)" and "procs s ! p = Breakdown m pc"
  shows "held (generate_breakdown cfg p m pc ev s)"
proof (cases pc)
  case BStart
  have "free_on (machines s) p" using assms BStart by (intro held_free) simp_all
  then show ?thesis using assms BStart
    by (simp add: generate_breakdown_def held_breakdown_loop)
next
  case BBreakdown
  have free: "free_on (machines s) p" using assms BBreakdown by (intro held_free) simp_all
  show ?thesis
  proof (cases "request m p s")
    case (Inl e)
    then show ?thesis using assms BBreakdown free
      by (simp add: generate_breakdown_def held_def held_on_update_free)
  next
    case (Inr a)
    obtain r s' where a: "a = (r, s')" by (cases a)
    have "held (s'\<lparr>procs := (procs s')[p := Breakdown m (BRequest r)]\<rparr>)"
      using assms(1) free assms(2) Inr [unfolded a] by (rule held_request) simp
    then show ?thesis using assms BBreakdown Inr a
      by (simp add: generate_breakdown_def)
  qed
next
  case (BRequest r)
  have "held (say p (BreakdownIn m (now s)) s)" using assms(1) by (simp add: held_def)
  then have "held (breakdown_repair cfg p m r (say p (BreakdownIn m (now s)) s))"
    using assms BRequest by (intro held_breakdown_repair) simp_all
  then show ?thesis using assms BRequest by (simp add: generate_breakdown_def)
next
  case (BRepair r)
  let ?s = "exit_with m r p (say p (Repaired m (now s)) s)"
  have h: "held (say p (Repaired m (now s)) s)" using assms(1) by (simp add: held_def)
  then have "held ?s" by (rule held_exit_with)
  moreover have "free_on (machines ?s) p"
    using h assms BRepair by (intro free_exit_with) simp_all
  ultimately have "held (breakdown_loop cfg p m ?s)" by (rule held_breakdown_loop)
  then show ?thesis using assms BRepair by (simp add: generate_breakdown_def)
next
  case BFailed
  then show ?thesis using assms by (simp add: generate_breakdown_def)
qed


lemma held_processing:
  assumes "held s" and "p < length (procs s)" and "procs s ! p = Processing pt m q pc"
  shows "held (process_product cfg p pt m q pc ev s)"
proof -
  have "held (s\<lparr>procs := (procs s)[p := Processing pt m q pc']\<rparr>)" for pc'
    using assms by (intro held_update_same) simp_all
  then have *: "held_on (machines s) (next_request s) ((procs s)[p := Processing pt m q pc'])"
    for pc' by (simp add: held_def)
  show ?thesis using assms(1)
    by (cases pc) (simp_all add: process_product_def randint_def timeout_def held_def *)
qed

lemma held_shift:
  assumes "held s" and "p < length (procs s)" and "procs s ! p = ShiftCycle l pc"
  shows "held (change_shift p l pc ev s)"
proof -
  have "held (s\<lparr>procs := (procs s)[p := ShiftCycle l' pc']\<rparr>)" for l' pc'
    using assms by (intro held_update_same) simp_all
  then have *: "held_on (machines s) (next_request s) ((procs s)[p := ShiftCycle l' pc'])"
    for l' pc' by (simp add: held_def)
  show ?thesis using assms(1)
    by (cases pc) (simp_all add: change_shift_def Let_def held_def *)
qed

lemma held_arrival_loop:
  assumes "held s" and "free_on (machines s) p"
  shows "held (arrival_loop cfg p pt i s)"
proof -
  have "held (s\<lparr>procs := (procs s)[p := g]\<rparr>)" for g
    using assms by (rule held_update_free)
  then have *: "held_on (machines s) (next_request s) ((procs s)[p := g])" for g
    by (simp add: held_def)
  show ?thesis
    by (simp add: arrival_loop_def expovariate_def timeout_def held_def * split_beta)
qed

lemma held_arrival:
  assumes "held s" and "p < length (procs s)" and "procs s ! p = Arrival pt i pc"
  shows "held (send_raw_material cfg p pt i pc ev s)"
proof (cases pc)
  case AStart
  have "free_on (machines s) p" using assms by (intro held_free) simp_all
  then show ?thesis using assms AStart
    by (simp add: send_raw_material_def held_arrival_loop)
next
  case AWait
  let ?s = "snd (process (Product pt i 0 PStart) (s\<lparr>RAW_MATERIALS_USED := RAW_MATERIALS_USED s + 1\<rparr>))"
  have free: "free_on (machines s) p" using assms by (intro held_free) simp_all
  have "held ?s" using assms(1) by (simp add: held_def held_on_append)
  moreover have "free_on (machines ?s) p" using free by simp
  ultimately have "held (arrival_loop cfg p pt (i + 1) ?s)" by (rule held_arrival_loop)
  then show ?thesis using assms AWait
    by (simp add: send_raw_material_def Let_def split_beta)
next
  case AFailed
  then show ?thesis using assms by (simp add: send_raw_material_def)
qed

lemma held_product_loop:
  assumes "held s" and "free_on (machines s) p" and "p < length (procs s)"
  shows "held (product_loop p pt i st ms s)"
proof (cases ms)
  case Nil
  have "held (s\<lparr>procs := (procs s)[p := g]\<rparr>)" for g
    using assms(1,2) by (rule held_update_free)
  then have "held_on (machines s) (next_request s) ((procs s)[p := g])" for g
    by (simp add: held_def)
  then show ?thesis using Nil by (simp add: product_loop_def Let_def held_def)
next
  case (Cons m rest)
  show ?thesis
  proof (cases "request m p s")
    case (Inl e)
    then show ?thesis using assms Cons
      by (simp add: product_loop_def held_def held_on_update_free)
  next
    case (Inr a)
    obtain r s' where a: "a = (r, s')" by (cases a)
    have "held (s'\<lparr>procs := (procs s')[p := Product pt i st (PRequest m rest r)]\<rparr>)"
      using assms Inr [unfolded a] by (rule held_request) simp
    then show ?thesis using Cons Inr a by (simp add: product_loop_def)
  qed
qed

lemma held_product:
  assumes "held s" and "p < length (procs s)" and "procs s ! p = Product pt i st pc"
  shows "held (produce_product cfg p pt i st pc ev s)"
proof (cases pc)
  case PStart
  let ?s = "say p (Entered pt i (now s)) s"
  have "free_on (machines s) p" using assms PStart by (intro held_free) simp_all
  moreover have "held ?s" using assms(1) by (simp add: held_def)
  ultimately have "held (product_loop p pt i (now s) stages ?s)"
    using assms(2) by (intro held_product_loop) simp_all
  then show ?thesis using PStart assms(1) by (simp add: produce_product_def)
next
  case (PRequest m rest r)
  have "held (s\<lparr>procs := (procs s)[p := Product pt i st (PProcess m rest r c)]\<rparr>)" for c
    using assms PRequest by (intro held_update_same) simp_all
  then have "held_on (machines s) (next_request s)
      ((procs s)[p := Product pt i st (PProcess m rest r c)])" for c
    by (simp add: held_def)
  then have "held_on (machines s) (next_request s)
      ((procs s @ [g])[p := Product pt i st (PProcess m rest r c)])" for c g
    using assms(2) held_on_append [of "machines s" "next_request s"
        "(procs s)[p := Product pt i st (PProcess m rest r c)]" g]
    by (simp add: list_update_append)
  then show ?thesis using assms(1) PRequest
    by (simp add: produce_product_def Let_def split_beta held_def)
next
  case (PProcess m rest r c)
  let ?s = "exit_with m r p s"
  have h: "held ?s" using assms(1) by (rule held_exit_with)
  have f: "free_on (machines ?s) p"
    using assms PProcess by (intro free_exit_with) simp_all
  have 1: "held (product_loop p pt i (now s) rest ?s)"
    using h f assms(2) by (intro held_product_loop) simp_all
  have 2: "held (fail p g e ?s)" for g e
    using held_update_free [OF h f, of g] by (simp add: held_def)
  show ?thesis
  proof (cases ev)
    case (ProcessEnd c' out)
    then show ?thesis using assms(1) PProcess 1 2
      by (cases out) (simp_all add: produce_product_def)
  qed (use assms(1) PProcess in \<open>simp_all add: produce_product_def\<close>)
next
  case PFinished
  then show ?thesis using assms(1) by (simp add: produce_product_def)
next
  case PFailed
  then show ?thesis using assms(1) by (simp add: produce_product_def)
qed

lemma held_resume: "held s \<Longrightarrow> held (resume cfg p ev s)"
  by (rule resume_invariant)
     (simp_all add: held_breakdown held_arrival held_product held_processing held_shift)

lemma held_after: "held s \<Longrightarrow> held (after cfg n s)"
  by (rule after_invariant) (simp_all add: held_resume held_trigger_put, simp add: held_def)

lemma make_machines_empty:
  "make_machines nm acc = Inr ms \<Longrightarrow>
   (\<And>m pl. acc m = Some pl \<Longrightarrow> users pl = [] \<and> put_queue pl = []) \<Longrightarrow>
   ms m = Some pl \<Longrightarrow> users pl = [] \<and> put_queue pl = []"
proof (induction nm acc rule: make_machines.induct)
  case (1 acc)
  then show ?case by simp
next
  case (2 m' quantity rest acc)
  show ?case
  proof (rule "2.IH")
    show "\<not> quantity \<le> 0" using "2.prems"(1) by (simp split: if_splits)
    show "make_machines rest (acc(m' \<mapsto> \<lparr>capacity = quantity, users = [], put_queue = []\<rparr>))
          = Inr ms"
      using "2.prems"(1) by (simp split: if_splits)
    show "ms m = Some pl" by fact
    show "users pl' = [] \<and> put_queue pl' = []"
      if "(acc(m' \<mapsto> \<lparr>capacity = quantity, users = [], put_queue = []\<rparr>)) m'' = Some pl'"
      for m'' pl'
      using that "2.prems"(2) [of m'' pl'] by (cases "m'' = m'") auto
  qed
qed

lemma held_started:
  assumes "started cfg env nm t = Some s"
  shows "held s"
proof -
  obtain ms where ms: "make_machines nm Map.empty = Inr ms" and m: "machines s = ms"
    using assms
    by (auto simp: started_def prepare_def Let_def split: sum.splits if_splits)
  have "users pl = [] \<and> put_queue pl = []" if "ms m = Some pl" for m pl
    using make_machines_empty [OF ms _ that] by simp
  then show ?thesis using m by (simp add: held_def held_on_def pool_ok_def)
qed

subsection \<open>The order of the stages\<close>

lemma visited_append [simp]: "visited p (tr @ [x]) = visited p tr @ visit_of p x"
  by (simp add: visited_def)

lemma visited_fresh:
  assumes "\<forall>(q, ob) \<in> set tr. q < n" and "n \<le> p"
  shows "visited p tr = []"
  using assms(1)
proof (induction tr)
  case Nil
  then show ?case by (simp add: visited_def)
next
  case (Cons x tr)
  obtain q ob where x: "x = (q, ob)" by (cases x)
  have "q \<noteq> p" using Cons.prems x assms(2) by auto
  then have "visit_of p x = []" using x by (cases ob) simp_all
  then show ?case using Cons by (simp add: visited_def)
qed

lemma ordered_on_update:
  assumes "ordered_on tr ps"
    and "p < length ps \<Longrightarrow> to_visit g = None \<or> to_visit g = to_visit (ps ! p)"
  shows "ordered_on tr (ps[p := g])"
  unfolding ordered_on_def
proof (intro conjI allI impI)
  show "\<forall>(q, ob) \<in> set tr. q < length (ps[p := g])"
    using assms(1) by (simp add: ordered_on_def)
next
  fix q rest
  assume q: "q < length (ps[p := g])" and v: "to_visit (ps[p := g] ! q) = Some rest"
  have "to_visit (ps ! q) = Some rest"
  proof (cases "q = p")
    case True
    then show ?thesis using q v assms(2) by auto
  next
    case False
    then show ?thesis using v by simp
  qed
  then show "visited q tr @ rest = stages"
    using assms(1) q by (simp add: ordered_on_def)
qed

lemma ordered_on_append:
  assumes "ordered_on tr ps" and "to_visit g = None \<or> to_visit g = Some stages"
  shows "ordered_on tr (ps @ [g])"
  unfolding ordered_on_def
proof (intro conjI allI impI)
  show "\<forall>(q, ob) \<in> set tr. q < length (ps @ [g])"
    using assms(1) by (fastforce simp: ordered_on_def)
next
  fix q rest
  assume q: "q < length (ps @ [g])" and v: "to_visit ((ps @ [g]) ! q) = Some rest"
  show "visited q tr @ rest = stages"
  proof (cases "q < length ps")
    case True
    then show ?thesis using assms(1) v by (simp add: ordered_on_def nth_append)
  next
    case False
    then have "q = length ps" using q by simp
    moreover have "visited (length ps) tr = []"
      using assms(1) by (intro visited_fresh [of tr "length ps"]) (simp_all add: ordered_on_def)
    ultimately show ?thesis using v assms(2) by simp
  qed
qed

lemma ordered_on_say:
  assumes "ordered_on tr ps" and "p < length ps" and "\<And>q. visit_of q (p, ob) = []"
  shows "ordered_on (tr @ [(p, ob)]) ps"
  using assms unfolding ordered_on_def by simp

lemma ordered_on_stage:
  assumes "ordered_on tr ps" and "p < length ps" and "to_visit (ps ! p) = Some (m # rest)"
    and "to_visit g = Some rest"
  shows "ordered_on (tr @ [(p, AtStage pt i m t w)]) (ps[p := g])"
  unfolding ordered_on_def
proof (intro conjI allI impI)
  show "\<forall>(q, ob) \<in> set (tr @ [(p, AtStage pt i m t w)]). q < length (ps[p := g])"
    using assms(1,2) by (simp add: ordered_on_def)
next
  fix q rest'
  assume q: "q < length (ps[p := g])" and v: "to_visit (ps[p := g] ! q) = Some rest'"
  show "visited q (tr @ [(p, AtStage pt i m t w)]) @ rest' = stages"
  proof (cases "q = p")
    case True
    then have "rest' = rest" using q v assms(4) by simp
    moreover have "visited p tr @ m # rest = stages"
      using assms(1-3) by (simp add: ordered_on_def)
    ultimately show ?thesis using True by simp
  next
    case False
    then have "to_visit (ps ! q) = Some rest'" using v by simp
    then show ?thesis using assms(1) q False by (simp add: ordered_on_def)
  qed
qed

lemma ordered_say:
  assumes "ordered n0 s" and "p < length (procs s)" and "\<And>q. visit_of q (p, ob) = []"
  shows "ordered n0 (say p ob s)"
  using assms by (simp add: ordered_def ordered_on_say)

lemma ordered_update:
  assumes "ordered n0 s"
    and "p < length (procs s) \<Longrightarrow> to_visit g = None \<or> to_visit g = to_visit (procs s ! p)"
  shows "ordered_on (drop n0 (trace s)) ((procs s)[p := g])"
  using assms by (simp add: ordered_def ordered_on_update)

lemma ordered_trigger_put: "ordered n0 s \<Longrightarrow> ordered n0 (trigger_put m s)"
  by (simp add: ordered_def)

lemma ordered_breakdown_loop:
  assumes "ordered n0 s"
  shows "ordered n0 (breakdown_loop cfg p m s)"
proof -
  have *: "ordered_on (drop n0 (trace s)) ((procs s)[p := Breakdown m pc'])" for pc'
    using assms by (intro ordered_update) simp_all
  show ?thesis using assms
    by (simp add: breakdown_loop_def randint_def timeout_def ordered_def *)
qed

lemma ordered_breakdown_repair:
  assumes "ordered n0 s"
  shows "ordered n0 (breakdown_repair cfg p m r s)"
proof -
  have *: "ordered_on (drop n0 (trace s)) ((procs s)[p := Breakdown m pc'])" for pc'
    using assms by (intro ordered_update) simp_all
  show ?thesis using assms
    by (simp add: breakdown_repair_def randint_def timeout_def ordered_def *)
qed

lemma ordered_exit_with: "ordered n0 s \<Longrightarrow> ordered n0 (exit_with m r p s)"
  by (simp add: ordered_def)

lemma ordered_breakdown:
  assumes "ordered n0 s" and "p < length (procs s)" and "procs s ! p = Breakdown m pc"
  shows "ordered n0 (generate_breakdown cfg p m pc ev s)"
proof (cases pc)
  case BStart
  then show ?thesis using assms by (simp add: generate_breakdown_def ordered_breakdown_loop)
next
  case BBreakdown
  have *: "ordered_on (drop n0 (trace s)) ((procs s)[p := Breakdown m pc'])" for pc'
    using assms by (intro ordered_update) simp_all
  show ?thesis
  proof (cases "request m p s")
    case (Inl e)
    then show ?thesis using assms(1) BBreakdown
      by (simp add: generate_breakdown_def ordered_def *)
  next
    case (Inr a)
    obtain r s' where a: "a = (r, s')" by (cases a)
    show ?thesis using assms(1) BBreakdown Inr a request_fields [OF Inr [unfolded a]]
      by (simp add: generate_breakdown_def ordered_def *)
  qed
next
  case (BRequest r)
  have "ordered n0 (say p (BreakdownIn m (now s)) s)"
    using assms by (intro ordered_say) simp_all
  then show ?thesis using assms(1) BRequest
    by (simp add: generate_breakdown_def ordered_breakdown_repair)
next
  case (BRepair r)
  have "ordered n0 (say p (Repaired m (now s)) s)"
    using assms by (intro ordered_say) simp_all
  then show ?thesis using assms(1) BRepair
    by (simp add: generate_breakdown_def ordered_breakdown_loop ordered_exit_with)
next
  case BFailed
  then show ?thesis using assms by (simp add: generate_breakdown_def)
qed

lemma ordered_processing:
  assumes "ordered n0 s" and "p < length (procs s)" and "procs s ! p = Processing pt m q pc"
  shows "ordered n0 (process_product cfg p pt m q pc ev s)"
proof -
  have *: "ordered_on (drop n0 (trace s)) ((procs s)[p := Processing pt m q pc'])" for pc'
    using assms by (intro ordered_update) simp_all
  show ?thesis using assms(1)
    by (cases pc) (simp_all add: process_product_def randint_def timeout_def ordered_def *)
qed

lemma ordered_shift:
  assumes "ordered n0 s" and "p < length (procs s)" and "procs s ! p = ShiftCycle l pc"
  shows "ordered n0 (change_shift p l pc ev s)"
proof -
  have 1: "ordered_on (drop n0 (trace s)) ((procs s)[p := ShiftCycle l' pc'])" for l' pc'
    using assms by (intro ordered_update) simp_all
  let ?s = "say p (ShiftChanged (next_shift l) (now s)) s"
  have "ordered n0 ?s" using assms by (intro ordered_say) simp_all
  then have 2: "ordered_on (drop n0 (trace ?s)) ((procs ?s)[p := ShiftCycle l' pc'])" for l' pc'
    by (intro ordered_update) simp_all
  show ?thesis using assms(1) 1 2
    by (cases pc) (simp_all add: change_shift_def Let_def ordered_def)
qed

lemma ordered_arrival_loop:
  assumes "ordered n0 s"
  shows "ordered n0 (arrival_loop cfg p pt i s)"
proof -
  have *: "ordered_on (drop n0 (trace s)) ((procs s)[p := Arrival pt i pc'])" for pc'
    using assms by (intro ordered_update) simp_all
  show ?thesis using assms
    by (simp add: arrival_loop_def expovariate_def timeout_def ordered_def * split_beta)
qed

lemma ordered_arrival:
  assumes "ordered n0 s" and "p < length (procs s)" and "procs s ! p = Arrival pt i pc"
  shows "ordered n0 (send_raw_material cfg p pt i pc ev s)"
proof (cases pc)
  case AStart
  then show ?thesis using assms by (simp add: send_raw_material_def ordered_arrival_loop)
next
  case AWait
  let ?s = "snd (process (Product pt i 0 PStart) (s\<lparr>RAW_MATERIALS_USED := RAW_MATERIALS_USED s + 1\<rparr>))"
  have "ordered n0 ?s" using assms(1) by (simp add: ordered_def ordered_on_append)
  then have "ordered n0 (arrival_loop cfg p pt (i + 1) ?s)" by (rule ordered_arrival_loop)
  then show ?thesis using assms(1) AWait
    by (simp add: send_raw_material_def Let_def split_beta)
next
  case AFailed
  then show ?thesis using assms by (simp add: send_raw_material_def)
qed

lemma ordered_product_loop:
  assumes "ordered n0 s" and "p < length (procs s)" and "to_visit (procs s ! p) = Some ms"
  shows "ordered n0 (product_loop p pt i st ms s)"
proof (cases ms)
  case Nil
  have 1: "ordered_on (drop n0 (trace s)) ((procs s)[p := Product pt i st PFinished])"
    using assms Nil by (intro ordered_update) simp_all
  let ?s = "say p (FinishedProduction pt i (now s)) s"
  have "ordered n0 ?s" using assms by (intro ordered_say) simp_all
  then have "ordered_on (drop n0 (trace ?s)) ((procs ?s)[p := Product pt i st PFinished])"
    using assms Nil by (intro ordered_update) simp_all
  then show ?thesis using assms(1) Nil
    by (simp add: product_loop_def Let_def ordered_def)
next
  case (Cons m rest)
  have *: "ordered_on (drop n0 (trace s)) ((procs s)[p := Product pt i st PFailed])"
    "ordered_on (drop n0 (trace s)) ((procs s)[p := Product pt i st (PRequest m rest r)])" for r
    using assms Cons by (intro ordered_update; simp)+
  show ?thesis
  proof (cases "request m p s")
    case (Inl e)
    then show ?thesis using assms(1) Cons by (simp add: product_loop_def ordered_def *)
  next
    case (Inr a)
    obtain r s' where a: "a = (r, s')" by (cases a)
    show ?thesis using assms(1) Cons Inr a request_fields [OF Inr [unfolded a]]
      by (simp add: product_loop_def ordered_def *)
  qed
qed


lemma ordered_product:
  assumes "ordered n0 s" and "p < length (procs s)" and "procs s ! p = Product pt i st pc"
  shows "ordered n0 (produce_product cfg p pt i st pc ev s)"
proof (cases pc)
  case PStart
  let ?s = "say p (Entered pt i (now s)) s"
  have "ordered n0 ?s" using assms by (intro ordered_say) simp_all
  then have "ordered n0 (product_loop p pt i (now s) stages ?s)"
    using assms PStart by (intro ordered_product_loop) simp_all
  then show ?thesis using assms(1) PStart by (simp add: produce_product_def)
next
  case (PRequest m rest r)
  let ?tr = "drop n0 (trace s) @ [(p, AtStage pt i m (now s) (now s - st))]"
  have "ordered_on ?tr ((procs s)[p := Product pt i st (PProcess m rest r c)])" for c
    using assms PRequest by (intro ordered_on_stage) (simp_all add: ordered_def)
  then have "ordered_on ?tr ((procs s)[p := Product pt i st (PProcess m rest r c)]
               @ [Processing pt m p CStart])" for c
    by (intro ordered_on_append) simp_all
  then have "ordered_on ?tr ((procs s @ [Processing pt m p CStart])
               [p := Product pt i st (PProcess m rest r c)])" for c
    using assms(2) by (simp add: list_update_append)
  then show ?thesis using assms(1) PRequest
    by (simp add: produce_product_def Let_def split_beta ordered_def)
next
  case (PProcess m rest r c)
  let ?s = "exit_with m r p s"
  have h: "ordered n0 ?s" using assms(1) by (rule ordered_exit_with)
  then have 1: "ordered n0 (product_loop p pt i (now s) rest ?s)"
    using assms PProcess by (intro ordered_product_loop) simp_all
  have "ordered_on (drop n0 (trace ?s)) ((procs ?s)[p := Product pt i st PFailed])"
    using h by (intro ordered_update) simp_all
  then have 2: "ordered n0 (fail p (Product pt i st PFailed) e ?s)" for e
    using h by (simp add: ordered_def)
  show ?thesis
  proof (cases ev)
    case (ProcessEnd c' out)
    then show ?thesis using assms(1) PProcess 1 2
      by (cases out) (simp_all add: produce_product_def)
  qed (use assms(1) PProcess in \<open>simp_all add: produce_product_def\<close>)
next
  case PFinished
  then show ?thesis using assms(1) by (simp add: produce_product_def)
next
  case PFailed
  then show ?thesis using assms(1) by (simp add: produce_product_def)
qed

lemma ordered_resume: "ordered n0 s \<Longrightarrow> ordered n0 (resume cfg p ev s)"
  by (rule resume_invariant)
     (simp_all add: ordered_breakdown ordered_arrival ordered_product ordered_processing
        ordered_shift)

lemma ordered_after: "ordered n0 s \<Longrightarrow> ordered n0 (after cfg n s)"
  by (rule after_invariant)
     (simp_all add: ordered_resume ordered_trigger_put, simp add: ordered_def)

lemma started_fields:
  assumes "started cfg env nm t = Some s"
  shows "procs s = procs env @ map (\<lambda>m. Breakdown m BStart) (map fst nm)
             @ map (\<lambda>pt. Arrival pt 1 AStart) (PRODUCT_TYPES cfg) @ [ShiftCycle Day SStart]"
    and "trace s = trace env" and "PRODUCTS_PRODUCED s = 0" and "RAW_MATERIALS_USED s = 0"
    and "rng s = rng env" and "next_request s = next_request env"
  using assms
  by (auto simp: started_def prepare_def Let_def split: sum.splits if_splits)

lemma ordered_started:
  assumes "started cfg (Environment w) nm t = Some s"
  shows "ordered (length (trace w)) s"
proof -
  have "to_visit g = None" if "g \<in> set (procs s)" for g
    using that started_fields(1) [OF assms] by (auto simp: Environment_def)
  then have "\<forall>p < length (procs s). to_visit (procs s ! p) = None"
    by simp
  then show ?thesis
    using started_fields(2) [OF assms]
    by (simp add: ordered_def ordered_on_def Environment_def)
qed

subsection \<open>Unit numbers in sequence\<close>

lemma map_update_same:
  "(p < length xs \<Longrightarrow> f g = f (xs ! p)) \<Longrightarrow> map f (xs[p := g]) = map f xs"
  by (cases "p < length xs") (simp_all add: map_update list_update_same_conv list_update_beyond)

lemma concat_update_single:
  assumes "p < length xs" and "concat (map f xs) = [a]" and "f (xs ! p) = [a]" and "f g = [b]"
  shows "concat (map f (xs[p := g])) = [b]"
proof -
  have a: "xs = take p xs @ xs ! p # drop (Suc p) xs"
    using assms(1) by (simp add: id_take_nth_drop)
  have b: "xs[p := g] = take p xs @ g # drop (Suc p) xs"
    using assms(1) by (simp add: upd_conv_take_nth_drop)
  have "concat (map f (take p xs)) @ [a] @ concat (map f (drop (Suc p) xs)) = [a]"
    using assms(2,3) by (subst (asm) a) simp
  then have e: "concat (map f (take p xs)) = []" "concat (map f (drop (Suc p) xs)) = []"
    by (simp_all add: append_eq_Cons_conv)
  show ?thesis by (subst b) (simp add: e assms(4))
qed

lemma sequential_update:
  assumes "sequential ps"
    and "\<And>pt. p < length ps \<Longrightarrow> unit_id_of pt g = unit_id_of pt (ps ! p)"
    and "\<And>pt. p < length ps \<Longrightarrow> counter_of pt g = counter_of pt (ps ! p)"
  shows "sequential (ps[p := g])"
proof -
  have "unit_ids pt (ps[p := g]) = unit_ids pt ps" for pt
    unfolding unit_ids_def using assms(2) [of pt] by (simp add: map_update_same)
  moreover have "counters pt (ps[p := g]) = counters pt ps" for pt
    unfolding counters_def using assms(3) [of pt] by (simp add: map_update_same)
  ultimately show ?thesis using assms(1) by (simp add: sequential_def)
qed

lemma sequential_append:
  assumes "sequential ps" and "\<And>pt. unit_id_of pt g = []" and "\<And>pt. counter_of pt g = []"
  shows "sequential (ps @ [g])"
  using assms by (simp add: sequential_def unit_ids_def counters_def)

lemma sequential_spawn:
  assumes "sequential ps" and "p < length ps" and "ps ! p = Arrival pt i pc"
  shows "sequential ((ps @ [Product pt i st PStart])[p := Arrival pt (i + 1) pc'])"
  unfolding sequential_def
proof
  fix pt'
  let ?ps = "(ps @ [Product pt i st PStart])[p := Arrival pt (i + 1) pc']"
  have upd: "?ps = ps[p := Arrival pt (i + 1) pc'] @ [Product pt i st PStart]"
    using assms(2) by (simp add: list_update_append)
  show "(counters pt' ?ps = [] \<and> unit_ids pt' ?ps = []) \<or>
        (\<exists>i. 1 \<le> i \<and> counters pt' ?ps = [i] \<and> unit_ids pt' ?ps = [1..<i])"
  proof (cases "pt' = pt")
    case False
    have "unit_ids pt' ?ps = unit_ids pt' ps"
      unfolding unit_ids_def upd using False assms(2,3) by (simp add: map_update_same)
    moreover have "counters pt' ?ps = counters pt' ps"
      unfolding counters_def upd using False assms(2,3) by (simp add: map_update_same)
    ultimately show ?thesis using assms(1) by (simp add: sequential_def)
  next
    case True
    have "i \<in> set (counters pt ps)"
      unfolding counters_def using assms(2,3)
      by (auto simp: in_set_conv_nth intro!: bexI [of _ "Arrival pt i pc"])
    then have c: "counters pt ps = [i]" and u: "unit_ids pt ps = [1..<i]" and i: "1 \<le> i"
      using assms(1) unfolding sequential_def by (metis empty_iff empty_set list.set_cases list.inject set_ConsD)+
    have "concat (map (counter_of pt) (ps[p := Arrival pt (i + 1) pc'])) = [i + 1]"
      using assms(2,3) c by (intro concat_update_single [where a = i]) (simp_all add: counters_def)
    then have c': "counters pt ?ps = [i + 1]"
      unfolding counters_def upd by simp
    have "unit_ids pt (ps[p := Arrival pt (i + 1) pc']) = unit_ids pt ps"
      unfolding unit_ids_def using assms(2,3) by (simp add: map_update_same)
    then have "unit_ids pt ?ps = [1..<i] @ [i]"
      unfolding upd using u by (simp add: unit_ids_def)
    then have u': "unit_ids pt ?ps = [1..<i + 1]" using i by simp
    show ?thesis using True c' u' i by simp
  qed
qed


lemma sequential_breakdown:
  assumes "sequential (procs s)" and "p < length (procs s)" and "procs s ! p = Breakdown m pc"
  shows "sequential (procs (generate_breakdown cfg p m pc ev s))"
proof -
  have *: "sequential ((procs s)[p := Breakdown m pc'])" for pc'
    using assms by (intro sequential_update) simp_all
  show ?thesis
  proof (cases pc)
    case BBreakdown
    show ?thesis
    proof (cases "request m p s")
      case (Inl e)
      then show ?thesis using BBreakdown assms(1) by (simp add: generate_breakdown_def *)
    next
      case (Inr a)
      obtain r s' where a: "a = (r, s')" by (cases a)
      show ?thesis using BBreakdown assms(1) Inr a request_fields [OF Inr [unfolded a]]
        by (simp add: generate_breakdown_def *)
    qed
  qed (use assms(1) in \<open>simp_all add: generate_breakdown_def breakdown_loop_def
         breakdown_repair_def randint_def timeout_def *\<close>)
qed

lemma sequential_processing:
  assumes "sequential (procs s)" and "p < length (procs s)"
    and "procs s ! p = Processing pt m q pc"
  shows "sequential (procs (process_product cfg p pt m q pc ev s))"
proof -
  have *: "sequential ((procs s)[p := Processing pt m q pc'])" for pc'
    using assms by (intro sequential_update) simp_all
  show ?thesis using assms(1)
    by (cases pc) (simp_all add: process_product_def randint_def timeout_def *)
qed

lemma sequential_shift:
  assumes "sequential (procs s)" and "p < length (procs s)" and "procs s ! p = ShiftCycle l pc"
  shows "sequential (procs (change_shift p l pc ev s))"
proof -
  have *: "sequential ((procs s)[p := ShiftCycle l' pc'])" for l' pc'
    using assms by (intro sequential_update) simp_all
  show ?thesis using assms(1)
    by (cases pc) (simp_all add: change_shift_def Let_def *)
qed

lemma procs_arrival_loop:
  "\<exists>pc'. procs (arrival_loop cfg p pt i s) = (procs s)[p := Arrival pt i pc']"
  by (auto simp: arrival_loop_def expovariate_def timeout_def split_beta)

lemma sequential_arrival:
  assumes "sequential (procs s)" and "p < length (procs s)" and "procs s ! p = Arrival pt i pc"
  shows "sequential (procs (send_raw_material cfg p pt i pc ev s))"
proof (cases pc)
  case AStart
  obtain pc' where "procs (arrival_loop cfg p pt i s) = (procs s)[p := Arrival pt i pc']"
    using procs_arrival_loop by blast
  moreover have "sequential ((procs s)[p := Arrival pt i pc'])"
    using assms by (intro sequential_update) simp_all
  ultimately show ?thesis using assms(1) AStart by (simp add: send_raw_material_def)
next
  case AWait
  let ?s = "snd (process (Product pt i 0 PStart) (s\<lparr>RAW_MATERIALS_USED := RAW_MATERIALS_USED s + 1\<rparr>))"
  obtain pc' where "procs (arrival_loop cfg p pt (i + 1) ?s) =
      (procs ?s)[p := Arrival pt (i + 1) pc']"
    using procs_arrival_loop by blast
  moreover have "sequential ((procs s @ [Product pt i 0 PStart])[p := Arrival pt (i + 1) pc'])"
    using assms by (rule sequential_spawn)
  ultimately show ?thesis using assms(1) AWait
    by (simp add: send_raw_material_def Let_def split_beta)
next
  case AFailed
  then show ?thesis using assms by (simp add: send_raw_material_def)
qed

lemma procs_product_loop:
  "\<exists>pc'. procs (product_loop p pt i st ms s) = (procs s)[p := Product pt i st pc']"
proof (cases ms)
  case Nil
  then show ?thesis by (auto simp: product_loop_def Let_def)
next
  case (Cons m rest)
  show ?thesis
  proof (cases "request m p s")
    case (Inl e)
    then show ?thesis using Cons by (auto simp: product_loop_def)
  next
    case (Inr a)
    obtain r s' where a: "a = (r, s')" by (cases a)
    show ?thesis using Cons Inr a request_fields [OF Inr [unfolded a]]
      by (auto simp: product_loop_def)
  qed
qed

lemma sequential_product:
  assumes "sequential (procs s)" and "p < length (procs s)" and "procs s ! p = Product pt i st pc"
  shows "sequential (procs (produce_product cfg p pt i st pc ev s))"
proof -
  have *: "sequential ((procs s)[p := Product pt i st' pc'])" for st' pc'
    using assms by (intro sequential_update) simp_all
  have loop: "sequential (procs (product_loop p pt i st' ms s'))" if "procs s' = procs s"
    for st' ms s'
    using procs_product_loop [of p pt i st' ms s'] * that by auto
  show ?thesis
  proof (cases pc)
    case PStart
    then show ?thesis using assms(1) by (simp add: produce_product_def loop)
  next
    case (PRequest m rest r)
    have "sequential ((procs s)[p := Product pt i st (PProcess m rest r c)]
             @ [Processing pt m p CStart])" for c
      using * by (intro sequential_append) simp_all
    then have "sequential ((procs s @ [Processing pt m p CStart])
             [p := Product pt i st (PProcess m rest r c)])" for c
      using assms(2) by (simp add: list_update_append)
    then show ?thesis using assms(1) PRequest
      by (simp add: produce_product_def Let_def split_beta)
  next
    case (PProcess m rest r c)
    show ?thesis
    proof (cases ev)
      case (ProcessEnd c' out)
      then show ?thesis using assms(1) PProcess * loop
        by (cases out) (simp_all add: produce_product_def)
    qed (use assms(1) PProcess in \<open>simp_all add: produce_product_def\<close>)
  next
    case PFinished
    then show ?thesis using assms(1) by (simp add: produce_product_def)
  next
    case PFailed
    then show ?thesis using assms(1) by (simp add: produce_product_def)
  qed
qed

lemma sequential_resume: "sequential (procs s) \<Longrightarrow> sequential (procs (resume cfg p ev s))"
  by (rule resume_invariant [where I = "\<lambda>s. sequential (procs s)"])
     (simp_all add: sequential_breakdown sequential_arrival sequential_product
        sequential_processing sequential_shift)

lemma sequential_after: "sequential (procs s) \<Longrightarrow> sequential (procs (after cfg n s))"
  by (rule after_invariant [where I = "\<lambda>s. sequential (procs s)"])
     (simp_all add: sequential_resume)

lemma counters_arrivals:
  "distinct pts \<Longrightarrow>
   concat (map (counter_of pt) (map (\<lambda>pt. Arrival pt 1 AStart) pts)) =
     (if pt \<in> set pts then [1] else [])"
  by (induction pts) auto

lemma sequential_started:
  assumes "started cfg (Environment w) nm t = Some s" and "distinct (PRODUCT_TYPES cfg)"
  shows "sequential (procs s)"
proof -
  have p: "procs s = map (\<lambda>m. Breakdown m BStart) (map fst nm)
             @ map (\<lambda>pt. Arrival pt 1 AStart) (PRODUCT_TYPES cfg) @ [ShiftCycle Day SStart]"
    using started_fields(1) [OF assms(1)] by (simp add: Environment_def)
  have u: "unit_ids pt (procs s) = []" for pt
    unfolding unit_ids_def p by (simp add: comp_def)
  have c: "counters pt (procs s) = (if pt \<in> set (PRODUCT_TYPES cfg) then [1] else [])" for pt
    unfolding counters_def p using counters_arrivals [OF assms(2), of pt]
    by (simp add: comp_def)
  show ?thesis unfolding sequential_def using u c by simp
qed

subsection \<open>Units and stages\<close>

lemma instant_Some:
  "instant cfg env nm t n = Some s \<Longrightarrow> \<exists>s0. started cfg env nm t = Some s0 \<and> s = after cfg n s0"
  by (auto simp: instant_def)

lemma quick_instant_35:
  "map_option (\<lambda>s. (procs s ! 6, procs s ! 10, PRODUCTS_PRODUCED s, length (procs s),
                     machines s Assembly))
     (instant quick_config (Environment (world threes)) unit_capacities 8 35) =
   Some (Product ProductA 1 7 PFinished,
         Product ProductA 2 7 (PProcess Assembly [QualityControl, Packaging] 5 13),
         1, 14, Some \<lparr>capacity = 1, users = [(5, 10)], put_queue = []\<rparr>)"
  by code_simp

lemma quick_instant_35_state:
  "\<exists>s. instant quick_config (Environment (world threes)) unit_capacities 8 35 = Some s
       \<and> procs s ! 6 = Product ProductA 1 7 PFinished
       \<and> procs s ! 10 = Product ProductA 2 7 (PProcess Assembly [QualityControl, Packaging] 5 13)
       \<and> PRODUCTS_PRODUCED s = 1 \<and> length (procs s) = 14
       \<and> machines s Assembly = Some \<lparr>capacity = 1, users = [(5, 10)], put_queue = []\<rparr>"
  using quick_instant_35 by auto

text \<open>
  C6: at every instant of a run in a new environment, a unit that has completed has printed
  "at Machining", "at Assembly", "at QualityControl", "at Packaging" in exactly this order,
  each once (and a unit still on its way has printed the stages before the ones it has left
  to visit); and the requests of one process among the users of the resources are at most
  one: two of them are the same request at the same machine type, and no resource has a
  request twice among its users.
\<close>

theorem stage_order:
  "instant cfg (Environment w) num_machines t n = Some s \<Longrightarrow>
   (\<forall>p pt i st. p < length (procs s) \<and> procs s ! p = Product pt i st PFinished \<longrightarrow>
      visited p (drop (length (trace w)) (trace s)) = stages)
   \<and> (\<forall>p rest. p < length (procs s) \<and> to_visit (procs s ! p) = Some rest \<longrightarrow>
        visited p (drop (length (trace w)) (trace s)) @ rest = stages)
   \<and> (\<forall>p m1 pl1 r1 m2 pl2 r2.
        machines s m1 = Some pl1 \<and> (r1, p) \<in> set (users pl1) \<and>
        machines s m2 = Some pl2 \<and> (r2, p) \<in> set (users pl2) \<longrightarrow> m1 = m2 \<and> r1 = r2)
   \<and> (\<forall>m pl. machines s m = Some pl \<longrightarrow> distinct (users pl))"
proof -
  assume a: "instant cfg (Environment w) num_machines t n = Some s"
  then obtain s0 where s0: "started cfg (Environment w) num_machines t = Some s0"
    and s: "s = after cfg n s0"
    using instant_Some by blast
  have o: "ordered_on (drop (length (trace w)) (trace s)) (procs s)"
    using ordered_after [OF ordered_started [OF s0], of cfg n] s by (simp add: ordered_def)
  have h: "held_on (machines s) (next_request s) (procs s)"
    using held_after [OF held_started [OF s0], of cfg n] s by (simp add: held_def)
  have 2: "visited p (drop (length (trace w)) (trace s)) @ rest = stages"
    if "p < length (procs s)" "to_visit (procs s ! p) = Some rest" for p rest
    using o that unfolding ordered_on_def by blast
  have 1: "visited p (drop (length (trace w)) (trace s)) = stages"
    if "p < length (procs s)" "procs s ! p = Product pt i st PFinished" for p pt i st
    using 2 [of p "[]"] that by simp
  have 3: "m1 = m2 \<and> r1 = r2"
    if "machines s m1 = Some pl1" "(r1, p) \<in> set (users pl1)"
       "machines s m2 = Some pl2" "(r2, p) \<in> set (users pl2)" for p m1 pl1 r1 m2 pl2 r2
  proof -
    have "pool_ok m1 (next_request s) (procs s) pl1" "pool_ok m2 (next_request s) (procs s) pl2"
      using h that(1,3) by (simp_all add: held_on_def)
    then have "holds_request (procs s ! p) = Some (m1, r1)"
      "holds_request (procs s ! p) = Some (m2, r2)"
      using that(2,4) by (auto intro: pool_ok_holds)
    then show ?thesis by simp
  qed
  have 4: "distinct (users pl)" if "machines s m = Some pl" for m pl
    using h that by (simp add: held_on_def pool_ok_def)
  show ?thesis using 1 2 3 4 by blast
qed

theorem stage_order_witness:
  "\<exists>s. instant quick_config (Environment (world threes)) unit_capacities 8 35 = Some s
       \<and> procs s ! 6 = Product ProductA 1 7 PFinished
       \<and> visited 6 (drop (length (trace (world threes))) (trace s)) = stages
       \<and> machines s Assembly = Some \<lparr>capacity = 1, users = [(5, 10)], put_queue = []\<rparr>"
proof -
  obtain s where s: "instant quick_config (Environment (world threes)) unit_capacities 8 35 = Some s"
    "procs s ! 6 = Product ProductA 1 7 PFinished" "length (procs s) = 14"
    "machines s Assembly = Some \<lparr>capacity = 1, users = [(5, 10)], put_queue = []\<rparr>"
    using quick_instant_35_state by blast
  have "visited 6 (drop (length (trace (world threes))) (trace s)) = stages"
    using stage_order [OF s(1)] s(2,3) by simp
  then show ?thesis using s by blast
qed

text \<open>
  C10: at every instant of a run in a new environment, \<open>PRODUCTS_PRODUCED\<close> is the number
  of units that have run to their end, so each is counted exactly once; such a unit has no
  request left, neither among the users nor in the queue of any resource (it left the
  \<open>with\<close> block of Packaging before the counter was incremented); and, the product types
  of \<open>PRODUCT_TYPES\<close> being distinct as they are in main.py, the units of each product
  type carry the numbers 1, 2, ..., k in the order in which they were started.
\<close>

theorem counted_once:
  "instant cfg (Environment w) num_machines t n = Some s \<Longrightarrow>
   PRODUCTS_PRODUCED s = length (filter is_finished (procs s))
   \<and> (\<forall>p m pl r. p < length (procs s) \<and> is_finished (procs s ! p) \<and> machines s m = Some pl \<longrightarrow>
        (r, p) \<notin> set (users pl) \<and> (r, p) \<notin> set (put_queue pl))
   \<and> (distinct (PRODUCT_TYPES cfg) \<longrightarrow> (\<exists>k. unit_ids pt (procs s) = [1..<Suc k]))"
proof -
  assume a: "instant cfg (Environment w) num_machines t n = Some s"
  then obtain s0 where s0: "started cfg (Environment w) num_machines t = Some s0"
    and s: "s = after cfg n s0"
    using instant_Some by blast
  have c: "PRODUCTS_PRODUCED s = length (filter is_finished (procs s))"
    using counted_after [OF counted_started [OF s0], of cfg n] s by (simp add: counted_def)
  have h: "held_on (machines s) (next_request s) (procs s)"
    using held_after [OF held_started [OF s0], of cfg n] s by (simp add: held_def)
  have f: "(r, p) \<notin> set (users pl) \<and> (r, p) \<notin> set (put_queue pl)"
    if "is_finished (procs s ! p)" "machines s m = Some pl" for p m pl r
  proof -
    have "holds_request (procs s ! p) = None"
      using that(1) by (cases "procs s ! p" rule: is_finished.cases) simp_all
    then have "free_on (machines s) p" using h by (intro held_on_free)
    then show ?thesis using that(2) unfolding free_on_def by auto
  qed
  have q: "\<exists>k. unit_ids pt (procs s) = [1..<Suc k]" if "distinct (PRODUCT_TYPES cfg)"
  proof -
    have "sequential (procs s)"
      using sequential_after [OF sequential_started [OF s0 that], of cfg n] s by simp
    then consider "unit_ids pt (procs s) = []"
      | i where "1 \<le> i" "unit_ids pt (procs s) = [1..<i]"
      unfolding sequential_def by blast
    then show ?thesis
    proof cases
      case 1
      then have "unit_ids pt (procs s) = [1..<Suc 0]" by simp
      then show ?thesis by blast
    next
      case (2 i)
      then have "unit_ids pt (procs s) = [1..<Suc (i - 1)]" by simp
      then show ?thesis by blast
    qed
  qed
  show ?thesis using c f q by blast
qed

theorem counted_once_witness:
  "\<exists>s. instant quick_config (Environment (world threes)) unit_capacities 8 35 = Some s
       \<and> is_finished (procs s ! 6) \<and> PRODUCTS_PRODUCED s = 1
       \<and> length (filter is_finished (procs s)) = 1
       \<and> distinct (PRODUCT_TYPES quick_config)
       \<and> (\<exists>k. unit_ids ProductA (procs s) = [1..<Suc k])"
proof -
  obtain s where s: "instant quick_config (Environment (world threes)) unit_capacities 8 35 = Some s"
    "procs s ! 6 = Product ProductA 1 7 PFinished" "PRODUCTS_PRODUCED s = 1"
    using quick_instant_35_state by blast
  have d: "distinct (PRODUCT_TYPES quick_config)" by (simp add: quick_config_def)
  show ?thesis
    using counted_once [OF s(1), of ProductA] s d by auto
qed

subsection \<open>The breakdown loop\<close>


lemma breakdowns_append [simp]: "breakdowns (ps @ [g]) = breakdowns ps @ breakdown_of g"
  by (simp add: breakdowns_def)



















subsection \<open>Ranges are read when a draw is made\<close>

lemma inverted_processing_run:
  "result_at (run_scenario inverted_processing_config 40 (Environment (world threes))
                unit_capacities [] 8) = Some (Inl (ValueError, 3))"
  by code_simp

lemma inverted_repair_run:
  "result_at (run_scenario inverted_repair_config 40 (Environment (world threes))
                unit_capacities [] 8) = Some (Inl (ValueError, 1))"
  by code_simp

lemma inverted_breakdown_run:
  "result_at (run_scenario inverted_config 20 (Environment (world ones))
                NUM_MACHINES NUM_OPERATORS SIM_TIME) = Some (Inl (ValueError, 0))"
  by code_simp

text \<open>
  C3, as the code has it: no range is looked at when a scenario is constructed. With
  positive capacities everything \<open>run_scenario\<close> does before \<open>env.run\<close> succeeds whatever
  the ranges are. A range with min > max makes \<open>random.randint\<close> raise ValueError when
  it is drawn from, and only then. The process that draws fails with it: the breakdown loop
  for a breakdown interval, the repair step, which first leaves its \<open>with\<close> block, and
  \<open>process_product\<close> for a processing time; failing schedules the failed Process event.
  The failed event of a \<open>process_product\<close> process resumes the \<open>produce_product\<close>
  process that waits for it, which leaves its \<open>with\<close> block and fails with the same
  exception. The failed event of a process that nobody waits for (every process but a
  \<open>process_product\<close> one) is raised by the scheduler when it is processed, and so it
  leaves \<open>env.run\<close>.
\<close>

theorem ranges_checked_at_draw:
  "((\<forall>(m, q) \<in> set num_machines. 0 < q) \<longrightarrow> \<not> isl (prepare cfg num_machines env))
   \<and> (b < a \<longrightarrow> randint a b g = Inl ValueError)
   \<and> (\<not> b < a \<longrightarrow> \<not> isl (randint a b g))
   \<and> (rmax (MACHINE_BREAKDOWN_TIME cfg m) < rmin (MACHINE_BREAKDOWN_TIME cfg m) \<longrightarrow>
        breakdown_loop cfg p m s = fail p (Breakdown m BFailed) ValueError s)
   \<and> (rmax (MACHINE_REPAIR_TIME cfg m) < rmin (MACHINE_REPAIR_TIME cfg m) \<longrightarrow>
        breakdown_repair cfg p m r s =
          fail p (Breakdown m BFailed) ValueError (exit_with m r p s))
   \<and> (rmax (PROCESSING_TIMES cfg pt m) < rmin (PROCESSING_TIMES cfg pt m) \<longrightarrow>
        process_product cfg p pt m parent CStart (Initialize p) s =
          fail p (Processing pt m parent CFailed) ValueError s)
   \<and> fail p gn e s =
        s\<lparr>procs := (procs s)[p := gn],
          queue := queue s @ [(now s, NORMAL, eid s, ProcessEnd p (Some e))],
          eid := eid s + 1\<rparr>
   \<and> (p < length (procs s) \<and> procs s ! p = Processing pt m parent pc \<longrightarrow>
        callbacks cfg (ProcessEnd p (Some e)) s =
          Inr (resume cfg parent (ProcessEnd p (Some e)) s))
   \<and> (parent < length (procs s) \<and> procs s ! parent = Product pt i st (PProcess m rest r p) \<longrightarrow>
        resume cfg parent (ProcessEnd p (Some e)) s =
          fail parent (Product pt i st PFailed) e (exit_with m r parent s))
   \<and> (waiter (procs s) p = None \<longrightarrow> callbacks cfg (ProcessEnd p (Some e)) s = Inl e)
   \<and> (p < length (procs s) \<and> (\<forall>pt m parent pc. procs s ! p \<noteq> Processing pt m parent pc) \<longrightarrow>
        waiter (procs s) p = None)
   \<and> (heappop (queue s) = Some ((t, pr, k, ProcessEnd p (Some e)), q) \<and>
       waiter (procs s) p = None \<longrightarrow>
        env_run cfg (Suc fuel) s = Some (Inl (e, s\<lparr>now := t, queue := q\<rparr>)))"
proof -
  have w: "waiter (procs s) p = None"
    if "p < length (procs s)" "\<forall>pt m parent pc. procs s ! p \<noteq> Processing pt m parent pc"
    using that by (cases "procs s ! p") (simp_all add: waiter_def)
  have r: "env_run cfg (Suc fuel) s = Some (Inl (e, s\<lparr>now := t, queue := q\<rparr>))"
    if "heappop (queue s) = Some ((t, pr, k, ProcessEnd p (Some e)), q)"
       "waiter (procs s) p = None"
    using that by (simp add: env_step_def callbacks_def)
  show ?thesis
    using prepare_ok [of num_machines cfg env] w r
    by (simp add: randint_def breakdown_loop_def breakdown_repair_def process_product_def
        callbacks_def waiter_def resume_def produce_product_def fail_def schedule_def)
qed

theorem ranges_checked_at_draw_witness:
  "\<not> isl (prepare inverted_config NUM_MACHINES (Environment (world ones)))
   \<and> randint (8 * 60) (4 * 60) ones = Inl ValueError
   \<and> \<not> isl (randint (4 * 60) (8 * 60) ones)
   \<and> breakdown_loop inverted_config 0 Machining (world ones) =
       fail 0 (Breakdown Machining BFailed) ValueError (world ones)
   \<and> breakdown_repair inverted_repair_config 0 Machining 0 (world ones) =
       fail 0 (Breakdown Machining BFailed) ValueError (exit_with Machining 0 0 (world ones))
   \<and> process_product inverted_processing_config 0 ProductA Machining 0 CStart (Initialize 0)
        (world ones) =
       fail 0 (Processing ProductA Machining 0 CFailed) ValueError (world ones)
   \<and> callbacks inverted_config (ProcessEnd 0 (Some ValueError)) (world ones) = Inl ValueError
   \<and> result_at (run_scenario inverted_config 20 (Environment (world ones))
                  NUM_MACHINES NUM_OPERATORS SIM_TIME) = Some (Inl (ValueError, 0))
   \<and> result_at (run_scenario inverted_repair_config 40 (Environment (world threes))
                  unit_capacities [] 8) = Some (Inl (ValueError, 1))
   \<and> result_at (run_scenario inverted_processing_config 40 (Environment (world threes))
                  unit_capacities [] 8) = Some (Inl (ValueError, 3))"
  using ranges_checked_at_draw [of NUM_MACHINES inverted_config "Environment (world ones)"
      "4 * 60" "8 * 60" ones Machining 0 "world ones"]
    ranges_checked_at_draw [of NUM_MACHINES inverted_config "Environment (world ones)"
      "8 * 60" "4 * 60" ones Machining 0 "world ones" 0 ProductA 0 _ ValueError]
    ranges_checked_at_draw [of "[]" inverted_repair_config "Environment (world ones)"
      0 0 ones Machining 0 "world ones" 0]
    ranges_checked_at_draw [of "[]" inverted_processing_config "Environment (world ones)"
      0 0 ones Machining 0 "world ones" 0 ProductA 0]
    inverted_breakdown_run inverted_repair_run inverted_processing_run
  by (simp add: NUM_MACHINES_def inverted_config_def module_config_def waiter_def world_def
      inverted_repair_config_def inverted_processing_config_def quick_config_def)

text \<open>C3 as stated fails: with every breakdown interval inverted the construction goes
  through, and the run then raises ValueError, not InvalidRangeError.\<close>

theorem inverted_range_counterexample:
  "\<not> isl (prepare inverted_config NUM_MACHINES (Environment (world ones)))
   \<and> result (run_scenario inverted_config 20 (Environment (world ones))
               NUM_MACHINES NUM_OPERATORS SIM_TIME) = Some (Inl ValueError)
   \<and> exn_name ValueError \<noteq> ''InvalidRangeError''"
  by code_simp

subsection \<open>The sweep visits the Cartesian product\<close>

lemma sweep_run_1:
  "result (run_scenario quick_config 20 (Environment (world threes))
             unit_capacities NUM_OPERATORS 4) = Some (Inr (0, 1))"
  by code_simp

lemma sweep_run_2:
  "result (run_scenario quick_config 20
             (Environment (final_state
                (run_scenario quick_config 20 (Environment (world threes))
                   unit_capacities NUM_OPERATORS 4) (world threes)))
             unit_capacities [] 4) = Some (Inr (0, 1))"
  by code_simp

lemma sweep_run_3:
  "result (run_scenario quick_config 20
             (Environment (final_state
                (run_scenario quick_config 20
                   (Environment (final_state
                      (run_scenario quick_config 20 (Environment (world threes))
                         unit_capacities NUM_OPERATORS 4) (world threes)))
                   unit_capacities [] 4) (world threes)))
             NUM_MACHINES NUM_OPERATORS 4) = Some (Inr (0, 1))"
  by code_simp

lemma sweep_run_4:
  "result (run_scenario quick_config 20
             (Environment (final_state
                (run_scenario quick_config 20
                   (Environment (final_state
                      (run_scenario quick_config 20
                         (Environment (final_state
                            (run_scenario quick_config 20 (Environment (world threes))
                               unit_capacities NUM_OPERATORS 4) (world threes)))
                         unit_capacities [] 4) (world threes)))
                   NUM_MACHINES NUM_OPERATORS 4) (world threes)))
             NUM_MACHINES [] 4) = Some (Inr (0, 1))"
  by code_simp

lemma run_combinations_records:
  "run_combinations cfg fuel t combos results w = Some (Inr (results', w')) \<Longrightarrow>
   \<forall>r \<in> set results. \<exists>w0. result (run_scenario cfg fuel (Environment w0)
        (Num_Machines r) (Shift_Schedule r) t) =
        Some (Inr (Products_Produced r, Raw_Materials_Used r)) \<Longrightarrow>
   \<forall>r \<in> set results'. \<exists>w0. result (run_scenario cfg fuel (Environment w0)
        (Num_Machines r) (Shift_Schedule r) t) =
        Some (Inr (Products_Produced r, Raw_Materials_Used r))"
proof (induction combos arbitrary: results w)
  case Nil
  then show ?case by simp
next
  case (Cons c combos)
  obtain nm ss where c: "c = (nm, ss)" by (cases c)
  from Cons.prems(1) obtain pp ru w1 where
    run: "run_scenario cfg fuel (Environment w) nm ss t = Some (Inr ((pp, ru), w1))"
    and rest: "run_combinations cfg fuel t combos
        (results @ [\<lparr>Num_Machines = nm, Shift_Schedule = ss,
                      Products_Produced = pp, Raw_Materials_Used = ru\<rparr>]) w1
       = Some (Inr (results', w'))"
    unfolding c by (auto split: option.splits sum.splits prod.splits)
  have "result (run_scenario cfg fuel (Environment w) nm ss t) = Some (Inr (pp, ru))"
    using run by (simp add: result_def)
  then have "\<forall>r \<in> set (results @ [\<lparr>Num_Machines = nm, Shift_Schedule = ss,
                      Products_Produced = pp, Raw_Materials_Used = ru\<rparr>]).
      \<exists>w0. result (run_scenario cfg fuel (Environment w0)
        (Num_Machines r) (Shift_Schedule r) t) =
        Some (Inr (Products_Produced r, Raw_Materials_Used r))"
    using Cons.prems(2) by auto
  then show ?case by (rule Cons.IH [OF rest])
qed

lemma run_combinations_raise:
  "run_scenario cfg fuel (Environment w) nm ss t = Some (Inl x) \<Longrightarrow>
   run_combinations cfg fuel t ((nm, ss) # rest) results w = Some (Inl x)"
  by simp

text \<open>
  C7, as the code has it: the two nested loops of \<open>perform_scenario_analysis\<close> are one loop
  over the Cartesian product of the capacity configurations and the shift schedules
  (capacities outermost), running one scenario per combination, each in a new environment
  and on the random stream the run before has left. When the sweep returns, it returns one
  record per combination, in that order, each with its inputs and the result of a run of
  these inputs. A run that raises ends the sweep with its exception, and no record is
  returned (the loop has no handler).
\<close>

theorem sweep_cartesian:
  "perform_scenario_analysis cfg fuel nml ssl t w =
     run_combinations cfg fuel t (List.product nml ssl) [] w
   \<and> (\<forall>results w'.
        perform_scenario_analysis cfg fuel nml ssl t w = Some (Inr (results, w')) \<longrightarrow>
        map inputs results = List.product nml ssl
        \<and> length results = length nml * length ssl
        \<and> (\<forall>r \<in> set results. \<exists>w0.
              result (run_scenario cfg fuel (Environment w0)
                        (Num_Machines r) (Shift_Schedule r) t) =
              Some (Inr (Products_Produced r, Raw_Materials_Used r))))
   \<and> (\<forall>nm ss rest results x.
        run_scenario cfg fuel (Environment w) nm ss t = Some (Inl x) \<longrightarrow>
        run_combinations cfg fuel t ((nm, ss) # rest) results w = Some (Inl x))"
proof -
  have eq: "perform_scenario_analysis cfg fuel nml ssl t w =
      run_combinations cfg fuel t (List.product nml ssl) [] w"
    by (simp add: perform_scenario_analysis_def machines_loop_combinations)
  have rec: "map inputs results = List.product nml ssl
        \<and> length results = length nml * length ssl
        \<and> (\<forall>r \<in> set results. \<exists>w0.
              result (run_scenario cfg fuel (Environment w0)
                        (Num_Machines r) (Shift_Schedule r) t) =
              Some (Inr (Products_Produced r, Raw_Materials_Used r)))"
    if "perform_scenario_analysis cfg fuel nml ssl t w = Some (Inr (results, w'))"
    for results w'
  proof -
    have r: "run_combinations cfg fuel t (List.product nml ssl) [] w = Some (Inr (results, w'))"
      using that eq by simp
    have 1: "map inputs results = List.product nml ssl"
      using run_combinations_inputs [OF r] by simp
    then have "length (map inputs results) = length (List.product nml ssl)" by simp
    then have 2: "length results = length nml * length ssl" by simp
    have 3: "\<forall>r \<in> set results. \<exists>w0.
              result (run_scenario cfg fuel (Environment w0)
                        (Num_Machines r) (Shift_Schedule r) t) =
              Some (Inr (Products_Produced r, Raw_Materials_Used r))"
      using run_combinations_records [OF r] by simp
    show ?thesis using 1 2 3 by blast
  qed
  show ?thesis using eq rec by simp
qed

theorem sweep_cartesian_witness:
  "\<exists>results w'.
     perform_scenario_analysis quick_config 20 [unit_capacities, NUM_MACHINES]
       [NUM_OPERATORS, []] 4 (world threes) = Some (Inr (results, w'))
     \<and> map inputs results =
          [(unit_capacities, NUM_OPERATORS), (unit_capacities, []),
           (NUM_MACHINES, NUM_OPERATORS), (NUM_MACHINES, [])]
     \<and> length results = 4"
proof -
  obtain w1 where 1: "run_scenario quick_config 20 (Environment (world threes))
      unit_capacities NUM_OPERATORS 4 = Some (Inr ((0, 1), w1))"
    using result_Inr [OF sweep_run_1] by blast
  obtain w2 where 2: "run_scenario quick_config 20 (Environment w1)
      unit_capacities [] 4 = Some (Inr ((0, 1), w2))"
    using result_Inr [OF sweep_run_2] 1 by (auto simp: final_state_def)
  obtain w3 where 3: "run_scenario quick_config 20 (Environment w2)
      NUM_MACHINES NUM_OPERATORS 4 = Some (Inr ((0, 1), w3))"
    using result_Inr [OF sweep_run_3] 1 2 by (auto simp: final_state_def)
  obtain w4 where 4: "run_scenario quick_config 20 (Environment w3)
      NUM_MACHINES [] 4 = Some (Inr ((0, 1), w4))"
    using result_Inr [OF sweep_run_4] 1 2 3 by (auto simp: final_state_def)
  have "\<exists>results w'. perform_scenario_analysis quick_config 20 [unit_capacities, NUM_MACHINES]
      [NUM_OPERATORS, []] 4 (world threes) = Some (Inr (results, w'))"
    using 1 2 3 4 by (simp add: perform_scenario_analysis_def)
  then show ?thesis
    using sweep_cartesian [of quick_config 20 "[unit_capacities, NUM_MACHINES]"
        "[NUM_OPERATORS, []]" 4 "world threes"]
    by auto
qed

text \<open>C7 as stated fails: a pair of input lists for which no record is returned. The
  second capacity configuration has capacity 0; its run raises ValueError and the record
  of the first run is lost with the sweep.\<close>

theorem sweep_raises_counterexample:
  "result (perform_scenario_analysis quick_config 20
             [unit_capacities, [(Machining, 0)]] [NUM_OPERATORS] 4 (world threes)) =
   Some (Inl ValueError)"
proof -
  obtain w1 where 1: "run_scenario quick_config 20 (Environment (world threes))
      unit_capacities NUM_OPERATORS 4 = Some (Inr ((0, 1), w1))"
    using result_Inr [OF sweep_run_1] by blast
  have 2: "run_scenario quick_config 20 (Environment w1) [(Machining, 0)] NUM_OPERATORS 4 =
      Some (Inl (ValueError, (Environment w1)\<lparr>PRODUCTS_PRODUCED := 0, RAW_MATERIALS_USED := 0\<rparr>))"
    by (simp add: run_scenario_def prepare_def)
  show ?thesis using 1 2 by (simp add: perform_scenario_analysis_def result_def)
qed

subsection \<open>The event that is popped\<close>

lemma heap_min_in: "heap_min x ys \<in> set (x # ys)"
  by (induction ys arbitrary: x) auto

lemma key_less_trans: "key_less a b \<Longrightarrow> key_less b c \<Longrightarrow> key_less a c"
  by (cases a, cases b, cases c) auto

lemma key_less_total: "key_less a c \<Longrightarrow> key_less a b \<or> key_less b c"
  by (cases a, cases b, cases c) auto

lemma heap_min_least: "y \<in> set (x # ys) \<Longrightarrow> \<not> key_less y (heap_min x ys)"
proof (induction ys arbitrary: x y)
  case Nil
  then show ?case by (cases x) auto
next
  case (Cons z zs)
  let ?x = "if key_less z x then z else x"
  have m: "\<not> key_less ?x (heap_min ?x zs)" by (rule Cons.IH) simp
  consider "y = x" | "y = z" | "y \<in> set zs" using Cons.prems by auto
  then show ?case
  proof cases
    case 1
    show ?thesis
    proof (cases "key_less z x")
      case True
      then show ?thesis using m 1 key_less_trans [of z x "heap_min z zs"] by auto
    next
      case False
      then show ?thesis using m 1 by simp
    qed
  next
    case 2
    show ?thesis
    proof (cases "key_less z x")
      case True
      then show ?thesis using m 2 by simp
    next
      case False
      then show ?thesis using m 2 key_less_total [of z "heap_min x zs" x] by auto
    qed
  next
    case 3
    then have "\<not> key_less y (heap_min ?x zs)" by (intro Cons.IH) simp
    then show ?thesis by simp
  qed
qed

lemma heappop_Some:
  assumes "heappop q = Some (x, q')"
  shows "x \<in> set q" and "q' = remove1 x q" and "\<forall>y \<in> set q. \<not> key_less y x"
proof -
  obtain a as where q: "q = a # as" using assms by (cases q) (simp_all add: heappop_def)
  then have x: "x = heap_min a as" and q': "q' = remove1 x q"
    using assms by (auto simp: heappop_def Let_def)
  show "x \<in> set q" using x q heap_min_in [of a as] by simp
  show "q' = remove1 x q" by fact
  show "\<forall>y \<in> set q. \<not> key_less y x" using x q heap_min_least [of _ a as] by blast
qed

lemma heappop_rest: "heappop q = Some (x, q') \<Longrightarrow> set q' \<subseteq> set q"
  using heappop_Some(2) [of q x q'] set_remove1_subset [of x q] by simp

lemma after_queue_invariant:
  assumes init: "I s"
    and pop: "\<And>s t pr e ev q. I s \<Longrightarrow> heappop (queue s) = Some ((t, pr, e, ev), q) \<Longrightarrow>
                ev \<noteq> Until \<Longrightarrow> J ev (s\<lparr>now := t, queue := q\<rparr>)"
    and last: "\<And>s t pr e ev q. I s \<Longrightarrow> heappop (queue s) = Some ((t, pr, e, ev), q) \<Longrightarrow>
                P (s\<lparr>now := t, queue := q\<rparr>)"
    and res: "\<And>s p ev. J ev s \<Longrightarrow> I (resume cfg p ev s)"
    and trig: "\<And>s m. J (Release m) s \<Longrightarrow> I (trigger_put m s)"
    and keep: "\<And>s ev. J ev s \<Longrightarrow> I s"
    and IP: "\<And>s. I s \<Longrightarrow> P s"
  shows "P (after cfg n s)"
  using init
proof (induction n arbitrary: s)
  case 0
  then show ?case using IP by simp
next
  case (Suc n)
  show ?case
  proof (cases "heappop (queue s)")
    case None
    then show ?thesis using Suc.prems IP by (simp add: env_step_def)
  next
    case (Some a)
    obtain t pr e ev q where a: "a = ((t, pr, e, ev), q)" by (cases a) auto
    let ?s = "s\<lparr>now := t, queue := q\<rparr>"
    have l: "P ?s" using last [OF Suc.prems Some [unfolded a]] .
    show ?thesis
    proof (cases "ev = Until")
      case True
      then show ?thesis using Some a l by (simp add: env_step_def Let_def)
    next
      case False
      have j: "J ev ?s" using pop [OF Suc.prems Some [unfolded a] False] .
      show ?thesis
      proof (cases "callbacks cfg ev ?s")
        case (Inl x)
        then show ?thesis using Some a l False by (simp add: env_step_def Let_def)
      next
        case (Inr s2)
        have "I s2"
          using Inr j res [OF j] trig keep [OF j]
          by (cases ev) (auto simp: callbacks_def split: option.splits)
        then have "P (after cfg n s2)" by (rule Suc.IH)
        then show ?thesis using Some a False Inr by (simp add: env_step_def Let_def)
      qed
    qed
  qed
qed

subsection \<open>Capacity is never exceeded\<close>

lemma bounded_pool_grant:
  assumes "bounded_pool nr pl" and "put_queue pl = x # rest"
    and "int (length (users pl)) < capacity pl"
  shows "bounded_pool nr (pl\<lparr>users := users pl @ [x], put_queue := rest\<rparr>)"
  using assms by (auto simp: bounded_pool_def)

lemma bounded_pool_enqueue:
  assumes "bounded_pool nr pl"
  shows "bounded_pool (Suc nr) (pl\<lparr>put_queue := put_queue pl @ [(nr, p)]\<rparr>)"
proof -
  have "\<forall>(r, p) \<in> set (users pl @ put_queue pl). r < nr"
    and s: "sorted_wrt (<) (map fst (put_queue pl))"
    and c: "int (length (users pl)) \<le> capacity pl"
    using assms by (simp_all add: bounded_pool_def)
  then have a: "\<forall>x \<in> set (users pl) \<union> set (put_queue pl). fst x < nr" by auto
  then have "sorted_wrt (<) (map fst (put_queue pl @ [(nr, p)]))"
    using s by (simp add: sorted_wrt_append)
  moreover have "\<forall>x \<in> set (users pl @ put_queue pl @ [(nr, p)]). fst x < Suc nr"
    using a by (auto simp: less_Suc_eq)
  ultimately show ?thesis using c by (simp add: bounded_pool_def case_prod_beta)
qed

lemma sorted_wrt_remove1: "sorted_wrt P xs \<Longrightarrow> sorted_wrt P (remove1 x xs)"
  by (induction xs) (auto dest: notin_set_remove1)

lemma bounded_pool_exit:
  assumes "bounded_pool nr pl"
  shows "bounded_pool nr (pl\<lparr>put_queue := remove1 x (put_queue pl),
                              users := remove1 x (users pl)\<rparr>)"
proof -
  have a: "\<forall>y \<in> set (users pl) \<union> set (put_queue pl). fst y < nr"
    and s: "sorted_wrt (<) (map fst (put_queue pl))"
    and c: "int (length (users pl)) \<le> capacity pl"
    using assms by (auto simp: bounded_pool_def)
  have "length (remove1 x (users pl)) \<le> length (users pl)"
    by (simp add: length_remove1)
  then have 1: "int (length (remove1 x (users pl))) \<le> capacity pl" using c by linarith
  have "sorted_wrt (\<lambda>a b. fst a < fst b) (put_queue pl)"
    using s by (simp add: sorted_wrt_map)
  then have "sorted_wrt (\<lambda>a b. fst a < fst b) (remove1 x (put_queue pl))"
    by (rule sorted_wrt_remove1)
  then have 2: "sorted_wrt (<) (map fst (remove1 x (put_queue pl)))"
    by (simp add: sorted_wrt_map)
  have 3: "\<forall>y \<in> set (remove1 x (users pl)) \<union> set (remove1 x (put_queue pl)). fst y < nr"
    using a set_remove1_subset [of x "users pl"] set_remove1_subset [of x "put_queue pl"]
    by blast
  have 4: "\<forall>(r, p) \<in> set (remove1 x (users pl) @ remove1 x (put_queue pl)). r < nr"
    using 3 by (simp add: case_prod_beta ball_Un)
  show ?thesis using 1 2 4 by (simp add: bounded_pool_def)
qed

lemma bounded_pool_mono: "bounded_pool nr pl \<Longrightarrow> nr \<le> nr' \<Longrightarrow> bounded_pool nr' pl"
  unfolding bounded_pool_def by fastforce

lemma bounded_on_upd:
  "bounded_on ms nr \<Longrightarrow> bounded_pool nr pl \<Longrightarrow> bounded_on (ms(m \<mapsto> pl)) nr"
  unfolding bounded_on_def by simp

lemma bounded_on_mono: "bounded_on ms nr \<Longrightarrow> nr \<le> nr' \<Longrightarrow> bounded_on ms nr'"
  unfolding bounded_on_def using bounded_pool_mono by blast

lemma bounded_fields:
  "machines s' = machines s \<Longrightarrow> next_request s' = next_request s \<Longrightarrow> bounded s' = bounded s"
  by (simp add: bounded_def)

lemma bounded_trigger_put: "bounded s \<Longrightarrow> bounded (trigger_put m s)"
proof (cases "machines s m")
  case None
  assume "bounded s"
  then show ?thesis using None by (simp add: bounded_def machines_trigger_put)
next
  case (Some pl)
  assume b: "bounded s"
  then have ok: "bounded_pool (next_request s) pl" using Some by (simp add: bounded_def bounded_on_def)
  show ?thesis
  proof (cases "put_queue pl")
    case Nil
    then show ?thesis using b Some by (simp add: bounded_def machines_trigger_put)
  next
    case (Cons x rest)
    show ?thesis
    proof (cases "int (length (users pl)) < capacity pl")
      case True
      have "bounded_on ((machines s)(m \<mapsto> pl\<lparr>users := users pl @ [x], put_queue := rest\<rparr>))
              (next_request s)"
        using b bounded_pool_grant [OF ok Cons True] by (simp add: bounded_def bounded_on_upd)
      then show ?thesis using Some Cons True by (simp add: bounded_def machines_trigger_put)
    next
      case False
      then show ?thesis using b Some Cons by (simp add: bounded_def machines_trigger_put)
    qed
  qed
qed

lemma bounded_exit_with: "bounded s \<Longrightarrow> bounded (exit_with m r p s)"
proof (cases "machines s m")
  case None
  assume "bounded s"
  then show ?thesis using None by (simp add: bounded_def machines_exit_with)
next
  case (Some pl)
  assume b: "bounded s"
  then have "bounded_pool (next_request s) pl" using Some by (simp add: bounded_def bounded_on_def)
  then have "bounded_pool (next_request s) (pl\<lparr>put_queue := remove1 (r, p) (put_queue pl),
                              users := remove1 (r, p) (users pl)\<rparr>)"
    by (rule bounded_pool_exit)
  then show ?thesis using b Some by (simp add: bounded_def machines_exit_with bounded_on_upd)
qed

lemma bounded_request:
  assumes "request m p s = Inr (r, s')" and "bounded s"
  shows "bounded s'"
proof -
  obtain pl where pl: "machines s m = Some pl"
    using assms(1) by (cases "machines s m") (simp_all add: request_def)
  define s1 where "s1 = s\<lparr>machines := (machines s)(m \<mapsto>
      pl\<lparr>put_queue := put_queue pl @ [(next_request s, p)]\<rparr>),
      next_request := next_request s + 1\<rparr>"
  have s': "s' = trigger_put m s1"
    using assms(1) pl by (auto simp: request_def Let_def s1_def)
  have "bounded_pool (next_request s) pl" using assms(2) pl by (simp add: bounded_def bounded_on_def)
  then have 1: "bounded_pool (Suc (next_request s))
       (pl\<lparr>put_queue := put_queue pl @ [(next_request s, p)]\<rparr>)"
    by (rule bounded_pool_enqueue)
  have "bounded_on (machines s) (Suc (next_request s))"
    using assms(2) unfolding bounded_def by (rule bounded_on_mono) simp
  then have "bounded s1" using 1 by (simp add: s1_def bounded_def bounded_on_upd)
  then show ?thesis unfolding s' by (rule bounded_trigger_put)
qed

lemma bounded_simps [simp]:
  "bounded (s\<lparr>procs := ps\<rparr>) = bounded s"
  "bounded (s\<lparr>rng := g\<rparr>) = bounded s"
  "bounded (s\<lparr>now := t\<rparr>) = bounded s"
  "bounded (s\<lparr>queue := q\<rparr>) = bounded s"
  "bounded (s\<lparr>PRODUCTS_PRODUCED := k\<rparr>) = bounded s"
  "bounded (s\<lparr>RAW_MATERIALS_USED := k\<rparr>) = bounded s"
  "bounded (schedule ev pr d s) = bounded s"
  "bounded (say p ob s) = bounded s"
  "bounded (fail p g' e s) = bounded s"
  "bounded (snd (process g' s)) = bounded s"
  by (simp_all add: bounded_def)

lemma bounded_breakdown:
  assumes "bounded s"
  shows "bounded (generate_breakdown cfg p m pc ev s)"
proof (cases pc)
  case BBreakdown
  show ?thesis
  proof (cases "request m p s")
    case (Inl e)
    then show ?thesis using assms BBreakdown by (simp add: generate_breakdown_def)
  next
    case (Inr a)
    obtain r s' where a: "a = (r, s')" by (cases a)
    have "bounded s'" using Inr [unfolded a] assms by (rule bounded_request)
    then show ?thesis using assms BBreakdown Inr a by (simp add: generate_breakdown_def)
  qed
qed (use assms in \<open>simp_all add: generate_breakdown_def breakdown_loop_def breakdown_repair_def
      randint_def timeout_def bounded_exit_with\<close>)

lemma bounded_processing:
  "bounded s \<Longrightarrow> bounded (process_product cfg p pt m q pc ev s)"
  by (cases pc) (simp_all add: process_product_def randint_def timeout_def)

lemma bounded_shift: "bounded s \<Longrightarrow> bounded (change_shift p l pc ev s)"
  by (cases pc) (simp_all add: change_shift_def Let_def)

lemma bounded_arrival: "bounded s \<Longrightarrow> bounded (send_raw_material cfg p pt i pc ev s)"
  by (cases pc)
     (simp_all add: send_raw_material_def arrival_loop_def expovariate_def timeout_def
        Let_def split_beta)

lemma bounded_product_loop:
  assumes "bounded s"
  shows "bounded (product_loop p pt i st ms s)"
proof (cases ms)
  case Nil
  then show ?thesis using assms by (simp add: product_loop_def Let_def)
next
  case (Cons m rest)
  show ?thesis
  proof (cases "request m p s")
    case (Inl e)
    then show ?thesis using assms Cons by (simp add: product_loop_def)
  next
    case (Inr a)
    obtain r s' where a: "a = (r, s')" by (cases a)
    have "bounded s'" using Inr [unfolded a] assms by (rule bounded_request)
    then show ?thesis using Cons Inr a by (simp add: product_loop_def)
  qed
qed

lemma bounded_product:
  assumes "bounded s"
  shows "bounded (produce_product cfg p pt i st pc ev s)"
proof (cases pc)
  case (PProcess m rest r c)
  show ?thesis
  proof (cases ev)
    case (ProcessEnd c' out)
    then show ?thesis using assms PProcess
      by (cases out)
         (simp_all add: produce_product_def bounded_product_loop bounded_exit_with)
  qed (use assms PProcess in \<open>simp_all add: produce_product_def\<close>)
qed (use assms in \<open>simp_all add: produce_product_def bounded_product_loop Let_def split_beta\<close>)

lemma bounded_resume: "bounded s \<Longrightarrow> bounded (resume cfg p ev s)"
  by (rule resume_invariant)
     (simp_all add: bounded_breakdown bounded_arrival bounded_product bounded_processing
        bounded_shift)

lemma make_machines_capacity:
  "make_machines nm acc = Inr ms \<Longrightarrow>
   (\<And>m pl. acc m = Some pl \<Longrightarrow> 0 < capacity pl) \<Longrightarrow>
   ms m = Some pl \<Longrightarrow> 0 < capacity pl"
proof (induction nm acc rule: make_machines.induct)
  case (1 acc)
  then show ?case by simp
next
  case (2 m' quantity rest acc)
  show ?case
  proof (rule "2.IH")
    show "\<not> quantity \<le> 0" using "2.prems"(1) by (simp split: if_splits)
    show "make_machines rest (acc(m' \<mapsto> \<lparr>capacity = quantity, users = [], put_queue = []\<rparr>))
          = Inr ms"
      using "2.prems"(1) by (simp split: if_splits)
    show "ms m = Some pl" by fact
    show "0 < capacity pl'"
      if "(acc(m' \<mapsto> \<lparr>capacity = quantity, users = [], put_queue = []\<rparr>)) m'' = Some pl'"
      for m'' pl'
      using that "2.prems"(1) "2.prems"(2) [of m'' pl']
      by (cases "m'' = m'") (auto split: if_splits)
  qed
qed

lemma started_machines:
  assumes "started cfg env nm t = Some s" and "machines s m = Some pl"
  shows "users pl = []" and "put_queue pl = []" and "0 < capacity pl"
proof -
  obtain ms where ms: "make_machines nm Map.empty = Inr ms" and m: "machines s = ms"
    using assms(1)
    by (auto simp: started_def prepare_def Let_def split: sum.splits if_splits)
  show "users pl = []" and "put_queue pl = []"
    using make_machines_empty [OF ms, of m pl] assms(2) m by simp_all
  show "0 < capacity pl"
    using make_machines_capacity [OF ms, of m pl] assms(2) m by simp
qed

lemma bounded_started:
  assumes "started cfg env nm t = Some s"
  shows "bounded s"
  unfolding bounded_def bounded_on_def bounded_pool_def
  using started_machines [OF assms] by (auto simp: less_imp_le)

subsection \<open>The shift cycle\<close>


end
